theory Spec2Isabelle
  imports Main "HOL-Library.Sublist"
begin

section \<open>JavaScript strings\<close>

text \<open>
  The plugin is TypeScript; its strings are sequences of code units. The model uses
  \<open>string\<close> (a list of \<open>char\<close>), one \<open>char\<close> per code unit, so it covers the
  documents whose code units lie below \<open>0x100\<close> (the Latin-1 range). On that range the
  white-space set of \<open>trim\<close> and of the regular-expression class \<open>\s\<close>, the lower-case
  mapping and the case-insensitive comparison of the regular-expression engine are the
  ones written out below.
\<close>

definition isWhiteSpace :: "char \<Rightarrow> bool" where
  "isWhiteSpace c \<longleftrightarrow>
     c = CHR 0x09 \<or> c = CHR 0x0A \<or> c = CHR 0x0B \<or> c = CHR 0x0C \<or> c = CHR 0x0D
   \<or> c = CHR 0x20 \<or> c = CHR 0xA0"

definition trimStart :: "string \<Rightarrow> string" where
  "trimStart s = dropWhile isWhiteSpace s"

definition trimEnd :: "string \<Rightarrow> string" where
  "trimEnd s = rev (dropWhile isWhiteSpace (rev s))"

definition trim :: "string \<Rightarrow> string" where
  "trim s = trimEnd (trimStart s)"

text \<open>\<open>s.indexOf(p)\<close>: the least index at which \<open>p\<close> occurs, \<open>None\<close> for \<open>-1\<close>.\<close>

fun indexOf :: "string \<Rightarrow> string \<Rightarrow> nat option" where
  "indexOf [] p = (if p = [] then Some 0 else None)"
| "indexOf (c # cs) p =
     (if prefix p (c # cs) then Some 0 else map_option Suc (indexOf cs p))"

definition includesStr :: "string \<Rightarrow> string \<Rightarrow> bool" where
  "includesStr s p \<longleftrightarrow> indexOf s p \<noteq> None"

text \<open>\<open>parts.join(sep)\<close>.\<close>

fun join :: "string \<Rightarrow> string list \<Rightarrow> string" where
  "join sep [] = []"
| "join sep [x] = x"
| "join sep (x # y # ys) = x @ sep @ join sep (y # ys)"

text \<open>\<open>s.replace(p, r)\<close> with a string pattern: the first occurrence only.\<close>

definition replaceFirst :: "string \<Rightarrow> string \<Rightarrow> string \<Rightarrow> string" where
  "replaceFirst p r s =
     (case indexOf s p of None \<Rightarrow> s
      | Some i \<Rightarrow> take i s @ r @ drop (i + length p) s)"

text \<open>
  \<open>s.toLowerCase()\<close> on the Latin-1 range: \<open>A\<close>--\<open>Z\<close> and \<open>0xC0\<close>--\<open>0xDE\<close> (without the
  multiplication sign \<open>0xD7\<close>) move up by \<open>0x20\<close>.
\<close>

definition lowerChar :: "char \<Rightarrow> char" where
  "lowerChar c =
     (let n = (of_char c :: nat) in
      if (0x41 \<le> n \<and> n \<le> 0x5A) \<or> (0xC0 \<le> n \<and> n \<le> 0xDE \<and> n \<noteq> 0xD7)
      then char_of (n + 0x20) else c)"

definition toLowerCase :: "string \<Rightarrow> string" where
  "toLowerCase s = map lowerChar s"

section \<open>Regular expressions of the plugin\<close>

text \<open>
  The \<open>Canonicalize\<close> operation of a regular expression with the \<open>i\<close> flag (and no
  \<open>u\<close> flag): a code unit is replaced by its upper-case form when that is one code unit.
  On the Latin-1 range this lowers nothing and raises \<open>a\<close>--\<open>z\<close> and \<open>0xE0\<close>--\<open>0xFE\<close>
  (without the division sign \<open>0xF7\<close>); \<open>0xDF\<close>, \<open>0xB5\<close> and \<open>0xFF\<close> stay distinct from every
  other code unit of the range.
\<close>

definition canonicalize :: "char \<Rightarrow> char" where
  "canonicalize c =
     (let n = (of_char c :: nat) in
      if (0x61 \<le> n \<and> n \<le> 0x7A) \<or> (0xE0 \<le> n \<and> n \<le> 0xFE \<and> n \<noteq> 0xF7)
      then char_of (n - 0x20) else c)"

definition sameChar :: "bool \<Rightarrow> char \<Rightarrow> char \<Rightarrow> bool" where
  "sameChar ignoreCase p c \<longleftrightarrow>
     (if ignoreCase then canonicalize p = canonicalize c else p = c)"

text \<open>A literal pattern matched at the start of the text; the result is the text left.\<close>

fun matchLiteral :: "bool \<Rightarrow> string \<Rightarrow> string \<Rightarrow> string option" where
  "matchLiteral ignoreCase [] s = Some s"
| "matchLiteral ignoreCase (p # ps) [] = None"
| "matchLiteral ignoreCase (p # ps) (c # cs) =
     (if sameChar ignoreCase p c then matchLiteral ignoreCase ps cs else None)"

text \<open>
  \<open>/<!--\s*NAME\s*-->/i\<close> matched at the start of the text. \<open>\s*\<close> is greedy, and what
  follows it never starts with white space, so the longest run is the only candidate.
\<close>

definition matchMarker :: "string \<Rightarrow> string \<Rightarrow> string option" where
  "matchMarker name s =
     (case matchLiteral True ''<!--'' s of None \<Rightarrow> None
      | Some r1 \<Rightarrow>
        (case matchLiteral True name (dropWhile isWhiteSpace r1) of None \<Rightarrow> None
         | Some r2 \<Rightarrow> matchLiteral True ''-->'' (dropWhile isWhiteSpace r2)))"

text \<open>
  \<open>/<!--\s*auto-node keyword:[^>]*-->/i\<close> matched at the start of the text. \<open>[^>]*\<close> stops
  before the first \<open>>\<close>, which therefore is the one that closes the match, and the two
  code units before it must be \<open>--\<close>.
\<close>

definition matchKeywordComment :: "string \<Rightarrow> string option" where
  "matchKeywordComment s =
     (case matchLiteral True ''<!--'' s of None \<Rightarrow> None
      | Some r1 \<Rightarrow>
        (case matchLiteral True ''auto-node keyword:'' (dropWhile isWhiteSpace r1) of
           None \<Rightarrow> None
         | Some r2 \<Rightarrow>
           (let body = takeWhile (\<lambda>c. c \<noteq> CHR ''>'') r2;
                rest = dropWhile (\<lambda>c. c \<noteq> CHR ''>'') r2
            in if rest \<noteq> [] \<and> suffix ''--'' body then Some (tl rest) else None)))"

text \<open>
  \<open>s.replace(regex, fn)\<close> with the \<open>g\<close> flag. The matcher gives the text left after a
  match at the current position; the replacement is computed from the matched text. After
  an empty match the engine copies one code unit and goes on.
\<close>

fun replaceAll :: "(string \<Rightarrow> string option) \<Rightarrow> (string \<Rightarrow> string) \<Rightarrow> string \<Rightarrow> string" where
  "replaceAll m f [] = (case m [] of None \<Rightarrow> [] | Some r \<Rightarrow> f [])"
| "replaceAll m f (c # cs) =
     (case m (c # cs) of
        None \<Rightarrow> c # replaceAll m f cs
      | Some r \<Rightarrow>
        (case length (c # cs) - length r of
           0 \<Rightarrow> f [] @ c # replaceAll m f cs
         | Suc k \<Rightarrow> f (take (Suc k) (c # cs)) @ replaceAll m f (drop k cs)))"

section \<open>The generated section\<close>

definition NL :: char where
  "NL = CHR 0x0A"

definition AUTO_NODE_MARKER_START :: string where
  "AUTO_NODE_MARKER_START = ''<!-- auto-node:start -->''"

definition AUTO_NODE_MARKER_END :: string where
  "AUTO_NODE_MARKER_END = ''<!-- auto-node:end -->''"

definition AUTO_NODE_INTRO :: string where
  "AUTO_NODE_INTRO = join [NL]
     [''# Auto Node'',
      ''An auto node is a special Obsidian .md note that will aggregate all your notes that contain a keyword of your choosing across your vault.'',
      ''Go to the Auto-node readme.md for more information.'',
      ''___'',
      '''']"

text \<open>
  The callback of the first \<open>replace\<close> in \<open>normalizeMarkers\<close>:
  \<open>match.split(":")[1]?.replace("-->", "").trim() ?? ""\<close>. The match always holds a
  colon, so the second part exists: it is the text between the first colon and the next
  one (or the end).
\<close>

definition keywordOfComment :: "string \<Rightarrow> string" where
  "keywordOfComment match =
     trim (replaceFirst ''-->'' ''''
       (takeWhile (\<lambda>c. c \<noteq> CHR '':'') (drop 1 (dropWhile (\<lambda>c. c \<noteq> CHR '':'') match))))"

definition normalizeMarkers :: "string \<Rightarrow> string" where
  "normalizeMarkers content =
     replaceAll (matchMarker ''auto-node:end'') (\<lambda>_. AUTO_NODE_MARKER_END)
       (replaceAll (matchMarker ''auto-node:start'') (\<lambda>_. AUTO_NODE_MARKER_START)
         (replaceAll matchKeywordComment
            (\<lambda>match. ''<!-- Auto-node keyword: '' @ keywordOfComment match @ '' -->'')
            content))"

text \<open>
  \<open>content.match(/^---[\s\S]*?\n---\n?/)\<close>: the length of the match. The lazy star
  stops at the first line break followed by \<open>---\<close> after the opening \<open>---\<close>; one more
  line break is taken when it is there.
\<close>

definition matchFrontmatter :: "string \<Rightarrow> nat option" where
  "matchFrontmatter content =
     (if prefix ''---'' content then
        (case indexOf (drop 3 content) (NL # ''---'') of
           None \<Rightarrow> None
         | Some i \<Rightarrow>
           (let n = 3 + i + 4
            in if n < length content \<and> content ! n = NL then Some (n + 1) else Some n))
      else None)"

definition ensureIntroSection :: "string \<Rightarrow> string" where
  "ensureIntroSection content =
     (if includesStr content ''# Auto Node'' then content
      else
        (case matchFrontmatter content of
           Some n \<Rightarrow>
             (let frontmatter = take n content;
                  rest = trimStart (drop n content);
                  body = (if rest \<noteq> [] then NL # rest else [])
              in trimEnd (frontmatter @ AUTO_NODE_INTRO @ body) @ [NL])
         | None \<Rightarrow>
             (let trimmed = trimStart content
              in if trimmed = [] then AUTO_NODE_INTRO
                 else AUTO_NODE_INTRO @ [NL] @ trimmed)))"

text \<open>
  The first part of \<open>mergeGeneratedSection\<close>: the value of \<open>next\<close> when the markers are
  looked up (normalised markers, intro section, a marker pair appended when one of the
  two is absent).
\<close>

definition establishMarkers :: "string \<Rightarrow> string" where
  "establishMarkers current =
     (let next = ensureIntroSection (normalizeMarkers current)
      in if \<not> includesStr next AUTO_NODE_MARKER_START \<or> \<not> includesStr next AUTO_NODE_MARKER_END
         then join [NL] [trimEnd next, '''', AUTO_NODE_MARKER_START, AUTO_NODE_MARKER_END, '''']
         else next)"

definition mergeGeneratedSection :: "string \<Rightarrow> string \<Rightarrow> string \<Rightarrow> string" where
  "mergeGeneratedSection current generated keyword =
     (let next = establishMarkers current in
      case indexOf next AUTO_NODE_MARKER_START of
        None \<Rightarrow> next
      | Some startIndex \<Rightarrow>
        (case indexOf next AUTO_NODE_MARKER_END of
           None \<Rightarrow> next
         | Some endIndex \<Rightarrow>
           if endIndex < startIndex then next
           else
             (let before = take (startIndex + length AUTO_NODE_MARKER_START) next;
                  after = drop endIndex next
              in trimEnd (before @ [NL, NL] @ generated @ [NL, NL] @ trimStart after) @ [NL])))"

section \<open>Keyword matching\<close>

record TFile =
  path :: string
  basename :: string

record AutoNodeConfig =
  keyword :: string
  caseSensitive :: bool
  matchWholeWord :: bool

record AutoNodeRecord = AutoNodeConfig +
  path :: string

text \<open>The class \<open>\w\<close> of a regular expression without the \<open>u\<close> flag: \<open>[A-Za-z0-9_]\<close>.\<close>

definition isWordChar :: "char \<Rightarrow> bool" where
  "isWordChar c \<longleftrightarrow>
     (let n = (of_char c :: nat) in
      (0x30 \<le> n \<and> n \<le> 0x39) \<or> (0x41 \<le> n \<and> n \<le> 0x5A) \<or> n = 0x5F
      \<or> (0x61 \<le> n \<and> n \<le> 0x7A))"

text \<open>
  \<open>keyword.replace(/[.*+?^${}()|[\]\\]/g, "\\$&")\<close>: a backslash is put before each
  of the fourteen code units of the class.
\<close>

definition isSyntaxChar :: "char \<Rightarrow> bool" where
  "isSyntaxChar c \<longleftrightarrow> c \<in> set ''.*+?^${}()|[]'' \<or> c = CHR 0x5C"

definition escapeRegExp :: "string \<Rightarrow> string" where
  "escapeRegExp s = concat (map (\<lambda>c. if isSyntaxChar c then [CHR 0x5C, c] else [c]) s)"

text \<open>
  The patterns that \<open>containsKeyword\<close> hands to \<open>new RegExp\<close> are made of the assertion
  \<open>\b\<close>, of escaped code units and of plain code units; they are read as a list of atoms.
\<close>

datatype atom = WordBoundary | Literal char

fun parseRegExp :: "string \<Rightarrow> atom list" where
  "parseRegExp [] = []"
| "parseRegExp [c] = [Literal c]"
| "parseRegExp (c # d # cs) =
     (if c = CHR 0x5C
      then (if d = CHR ''b'' then WordBoundary else Literal d) # parseRegExp cs
      else Literal c # parseRegExp (d # cs))"

definition isWordOpt :: "char option \<Rightarrow> bool" where
  "isWordOpt c = (case c of None \<Rightarrow> False | Some x \<Rightarrow> isWordChar x)"

text \<open>
  The atoms matched at one position: \<open>prev\<close> is the code unit before the position
  (\<open>None\<close> at the start of the text).
\<close>

fun matchAtoms :: "bool \<Rightarrow> atom list \<Rightarrow> char option \<Rightarrow> string \<Rightarrow> bool" where
  "matchAtoms ignoreCase [] prev s = True"
| "matchAtoms ignoreCase (WordBoundary # as) prev s =
     (isWordOpt prev \<noteq> isWordOpt (case s of [] \<Rightarrow> None | c # _ \<Rightarrow> Some c)
      \<and> matchAtoms ignoreCase as prev s)"
| "matchAtoms ignoreCase (Literal p # as) prev [] = False"
| "matchAtoms ignoreCase (Literal p # as) prev (c # cs) =
     (sameChar ignoreCase p c \<and> matchAtoms ignoreCase as (Some c) cs)"

fun testFrom :: "bool \<Rightarrow> atom list \<Rightarrow> char option \<Rightarrow> string \<Rightarrow> bool" where
  "testFrom ignoreCase as prev [] = matchAtoms ignoreCase as prev []"
| "testFrom ignoreCase as prev (c # cs) =
     (matchAtoms ignoreCase as prev (c # cs) \<or> testFrom ignoreCase as (Some c) cs)"

text \<open>
  \<open>regex.test(s)\<close>. The expression carries the \<open>g\<close> flag, so a test starts at
  \<open>lastIndex\<close>; \<open>containsKeyword\<close> builds the expression afresh, a failed test sets
  \<open>lastIndex\<close> back to 0 and a successful one ends the chain of \<open>||\<close>, so each test
  starts at 0.
\<close>

definition regexTest :: "bool \<Rightarrow> atom list \<Rightarrow> string \<Rightarrow> bool" where
  "regexTest ignoreCase as s = testFrom ignoreCase as None s"

definition containsKeyword :: "TFile \<Rightarrow> string \<Rightarrow> 'a AutoNodeConfig_scheme \<Rightarrow> bool" where
  "containsKeyword file content config =
     (let keyword = (if caseSensitive config then keyword config
                     else toLowerCase (keyword config));
          haystack = (if caseSensitive config then content else toLowerCase content);
          titleHaystack = (if caseSensitive config then basename file
                           else toLowerCase (basename file));
          pathHaystack = (if caseSensitive config then TFile.path file
                          else toLowerCase (TFile.path file))
      in if \<not> matchWholeWord config
         then includesStr haystack keyword \<or> includesStr titleHaystack keyword
              \<or> includesStr pathHaystack keyword
         else
           (let escaped = escapeRegExp keyword;
                regex = parseRegExp ([CHR 0x5C, CHR ''b''] @ escaped @ [CHR 0x5C, CHR ''b''])
            in regexTest (\<not> caseSensitive config) regex content
               \<or> regexTest (\<not> caseSensitive config) regex (basename file)
               \<or> regexTest (\<not> caseSensitive config) regex (TFile.path file)))"



section \<open>The plugin and its host\<close>

text \<open>
  The values of a front-matter key that \<open>detectAutoNodeConfig\<close> and \<open>parseBoolean\<close>
  tell apart: \<open>null\<close>, the booleans and the strings. A key that is absent reads as
  \<open>undefined\<close>, which is \<open>None\<close> below.
\<close>

datatype yaml = YNull | YBool bool | YString string

text \<open>
  What \<open>getAbstractFileByPath\<close> finds at a path, and the errors that reach the caller of
  an operation, one for each \<open>throw\<close> of the plugin and each rejection of the host.
\<close>

datatype entry = IsFile | IsFolder

datatype error =
    ReadFailed string
  | ModifyFailed string
  | SaveFailed
  | UnknownRecord string
  | FileNotFound string
  | EmptyPath
  | InvalidPath
  | FileExists string
  | CreateFolderFailed string
  | RenameFailed string

text \<open>Functions of the host application that the plugin calls and does not define.\<close>

record host =
  generateMarkdownLink :: "TFile \<Rightarrow> string \<Rightarrow> string"
  localeCompare :: "string \<Rightarrow> string \<Rightarrow> int"
  normalizePath :: "string \<Rightarrow> string option"
  basenameOf :: "string \<Rightarrow> string"

text \<open>
  The fields of the plugin (\<open>isUpdating\<close>, \<open>nodeRecords\<close>, \<open>settings.nodes\<close>) and the part of
  the vault it reads and writes: the markdown files, the text of each path (\<open>None\<close> when
  reading it fails), the paths whose modification, creation or renaming fails, the
  front matter of the metadata cache, the files and folders by path, the data file of
  the plugin, and the list of the calls of \<open>vault.modify\<close>.
\<close>

record state =
  isUpdating :: "string set"
  nodeRecords :: "string \<rightharpoonup> AutoNodeRecord"
  settingsNodes :: "string \<rightharpoonup> AutoNodeRecord"
  savedNodes :: "string \<rightharpoonup> AutoNodeRecord"
  saveDataFails :: bool
  markdownFiles :: "TFile list"
  contents :: "string \<rightharpoonup> string"
  unwritable :: "string set"
  frontmatters :: "string \<rightharpoonup> (string \<rightharpoonup> yaml)"
  entries :: "string \<rightharpoonup> entry"
  writes :: "(string \<times> string) list"

definition saveSettings :: "state \<Rightarrow> (error + unit) \<times> state" where
  "saveSettings st =
     (let st1 = st\<lparr>settingsNodes := nodeRecords st\<rparr>
      in if saveDataFails st1 then (Inl SaveFailed, st1)
         else (Inr (), st1\<lparr>savedNodes := settingsNodes st1\<rparr>))"

text \<open>\<open>void this.saveSettings().catch(...)\<close>: a failure is logged and dropped.\<close>

definition saveSettingsLogged :: "state \<Rightarrow> state" where
  "saveSettingsLogged st = snd (saveSettings st)"

definition parseBoolean :: "yaml option \<Rightarrow> bool" where
  "parseBoolean v =
     (case v of
        Some (YBool b) \<Rightarrow> b
      | Some (YString s) \<Rightarrow> toLowerCase (trim s) \<in> set [''true'', ''yes'', ''1'']
      | _ \<Rightarrow> False)"

text \<open>\<open>a ?? b\<close>: \<open>b\<close> when \<open>a\<close> is \<open>undefined\<close> or \<open>null\<close>.\<close>

definition nullish :: "yaml option \<Rightarrow> yaml option \<Rightarrow> yaml option" where
  "nullish a b = (case a of None \<Rightarrow> b | Some YNull \<Rightarrow> b | Some v \<Rightarrow> Some v)"

definition detectAutoNodeConfig :: "state \<Rightarrow> TFile \<Rightarrow> AutoNodeConfig option" where
  "detectAutoNodeConfig st file =
     (case frontmatters st (TFile.path file) of
        None \<Rightarrow> None
      | Some frontmatter \<Rightarrow>
        (let caseSensitive = parseBoolean (frontmatter ''autoNodeCaseSensitive'');
             matchWholeWord = parseBoolean (frontmatter ''autoNodeMatchWholeWord'')
         in case nullish (nullish (frontmatter ''autoNodeKeyword'')
                            (frontmatter ''autonodekeyword''))
                   (frontmatter ''auto-node-keyword'') of
              Some (YString k) \<Rightarrow>
                (if k = [] then None
                 else Some \<lparr>keyword = k, caseSensitive = caseSensitive,
                            matchWholeWord = matchWholeWord\<rparr>)
            | Some (YBool b) \<Rightarrow>
                (if \<not> b then None
                 else Some \<lparr>keyword = ''true'', caseSensitive = caseSensitive,
                            matchWholeWord = matchWholeWord\<rparr>)
            | _ \<Rightarrow> None))"

definition resolveAutoNodeRecord :: "TFile \<Rightarrow> state \<Rightarrow> AutoNodeRecord option \<times> state" where
  "resolveAutoNodeRecord file st =
     (case nodeRecords st (TFile.path file) of
        Some known \<Rightarrow> (Some known, st)
      | None \<Rightarrow>
        (case detectAutoNodeConfig st file of
           None \<Rightarrow> (None, st)
         | Some detected \<Rightarrow>
           (let record = \<lparr>keyword = keyword detected, caseSensitive = caseSensitive detected,
                          matchWholeWord = matchWholeWord detected,
                          path = TFile.path file\<rparr>;
                st1 = st\<lparr>nodeRecords := (nodeRecords st)(TFile.path file \<mapsto> record)\<rparr>
            in (Some record, saveSettingsLogged st1))))"


text \<open>\<open>matches.sort(compare)\<close>: a stable sort by the comparison function.\<close>

fun insertSorted :: "(string \<Rightarrow> string \<Rightarrow> int) \<Rightarrow> string \<Rightarrow> string list \<Rightarrow> string list" where
  "insertSorted cmp x [] = [x]"
| "insertSorted cmp x (y # ys) =
     (if cmp y x \<le> 0 then y # insertSorted cmp x ys else x # y # ys)"

definition sortWith :: "(string \<Rightarrow> string \<Rightarrow> int) \<Rightarrow> string list \<Rightarrow> string list" where
  "sortWith cmp xs = foldl (\<lambda>acc x. insertSorted cmp x acc) [] xs"

text \<open>The loop of \<open>refreshAutoNode\<close> over the markdown files of the vault.\<close>

fun collectMatches ::
  "host \<Rightarrow> state \<Rightarrow> TFile \<Rightarrow> AutoNodeRecord \<Rightarrow> TFile list \<Rightarrow> string list \<Rightarrow> error + string list"
where
  "collectMatches h st file record [] matches = Inr matches"
| "collectMatches h st file record (otherFile # rest) matches =
     (if TFile.path otherFile = TFile.path file
      then collectMatches h st file record rest matches
      else
        (case contents st (TFile.path otherFile) of
           None \<Rightarrow> Inl (ReadFailed (TFile.path otherFile))
         | Some content \<Rightarrow>
           (if containsKeyword otherFile content record
            then collectMatches h st file record rest
                   (matches @ [generateMarkdownLink h otherFile (TFile.path file)])
            else collectMatches h st file record rest matches)))"

definition generatedSection :: "host \<Rightarrow> string list \<Rightarrow> string" where
  "generatedSection h matches =
     (let sorted = sortWith (localeCompare h) matches
      in if sorted \<noteq> [] then join [NL] (map (\<lambda>link. ''- '' @ link) sorted)
         else ''_No matching notes yet._'')"

definition vaultModify :: "TFile \<Rightarrow> string \<Rightarrow> state \<Rightarrow> (error + unit) \<times> state" where
  "vaultModify file text st =
     (if TFile.path file \<in> unwritable st then (Inl (ModifyFailed (TFile.path file)), st)
      else (Inr (),
            st\<lparr>contents := (contents st)(TFile.path file \<mapsto> text),
               writes := writes st @ [(TFile.path file, text)]\<rparr>))"

text \<open>The body of the \<open>try\<close> block of \<open>refreshAutoNode\<close>, after the path is added.\<close>

definition refreshBody ::
  "host \<Rightarrow> TFile \<Rightarrow> AutoNodeRecord \<Rightarrow> state \<Rightarrow> (error + unit) \<times> state" where
  "refreshBody h file record st =
     (case collectMatches h st file record (markdownFiles st) [] of
        Inl e \<Rightarrow> (Inl e, st)
      | Inr matches \<Rightarrow>
        (case contents st (TFile.path file) of
           None \<Rightarrow> (Inl (ReadFailed (TFile.path file)), st)
         | Some current \<Rightarrow>
           (let next = mergeGeneratedSection current (generatedSection h matches)
                         (keyword record)
            in if current \<noteq> next then vaultModify file next st else (Inr (), st))))"

definition refreshAutoNode :: "host \<Rightarrow> TFile \<Rightarrow> state \<Rightarrow> (error + unit) \<times> state" where
  "refreshAutoNode h file st =
     (if TFile.path file \<in> isUpdating st then (Inr (), st)
      else
        (case resolveAutoNodeRecord file st of
           (None, st1) \<Rightarrow> (Inr (), st1)
         | (Some record, st1) \<Rightarrow>
           (case refreshBody h file record
                   (st1\<lparr>isUpdating := insert (TFile.path file) (isUpdating st1)\<rparr>) of
              (res, st2) \<Rightarrow>
                (res, st2\<lparr>isUpdating := isUpdating st2 - {TFile.path file}\<rparr>))))"

text \<open>\<open>files.filter((file) => this.resolveAutoNodeRecord(file))\<close>.\<close>

fun filterAutoNodes :: "TFile list \<Rightarrow> state \<Rightarrow> TFile list \<times> state" where
  "filterAutoNodes [] st = ([], st)"
| "filterAutoNodes (file # files) st =
     (case resolveAutoNodeRecord file st of
        (r, st1) \<Rightarrow>
          (case filterAutoNodes files st1 of
             (rest, st2) \<Rightarrow> (if r \<noteq> None then file # rest else rest, st2)))"

text \<open>The loop of \<open>refreshAllAutoNodes\<close>: a rejected refresh ends it.\<close>

fun refreshEach :: "host \<Rightarrow> TFile list \<Rightarrow> state \<Rightarrow> (error + unit) \<times> state" where
  "refreshEach h [] st = (Inr (), st)"
| "refreshEach h (autoNode # rest) st =
     (case refreshAutoNode h autoNode st of
        (Inl e, st1) \<Rightarrow> (Inl e, st1)
      | (Inr u, st1) \<Rightarrow> refreshEach h rest st1)"

definition refreshAllAutoNodes :: "host \<Rightarrow> state \<Rightarrow> (error + unit) \<times> state" where
  "refreshAllAutoNodes h st =
     (case filterAutoNodes (markdownFiles st) st of
        (autoNodes, st1) \<Rightarrow> refreshEach h autoNodes st1)"

section \<open>Renaming an auto-node\<close>








section \<open>The refresh timer\<close>

text \<open>
  The timers of the host are pairs of a handle and the time at which the timer is due.
  \<open>refreshTimeout\<close> is the field of the plugin; \<open>passes\<close> counts the calls of
  \<open>refreshAllAutoNodes\<close> made by the timer's callback.
\<close>

record scheduler =
  now :: nat
  nextHandle :: nat
  timers :: "(nat \<times> nat) list"
  refreshTimeout :: "nat option"
  passes :: nat

definition clearTimeout :: "nat \<Rightarrow> scheduler \<Rightarrow> scheduler" where
  "clearTimeout handle s = s\<lparr>timers := filter (\<lambda>t. fst t \<noteq> handle) (timers s)\<rparr>"

definition setTimeout :: "nat \<Rightarrow> scheduler \<Rightarrow> nat \<times> scheduler" where
  "setTimeout delay s =
     (nextHandle s,
      s\<lparr>timers := timers s @ [(nextHandle s, now s + delay)],
        nextHandle := Suc (nextHandle s)\<rparr>)"

definition scheduleRefresh :: "nat \<Rightarrow> scheduler \<Rightarrow> scheduler" where
  "scheduleRefresh delay s =
     (let s1 = (case refreshTimeout s of None \<Rightarrow> s | Some handle \<Rightarrow> clearTimeout handle s)
      in case setTimeout delay s1 of
           (handle, s2) \<Rightarrow> s2\<lparr>refreshTimeout := Some handle\<rparr>)"

text \<open>The callback given to \<open>setTimeout\<close>: the field is reset and a pass is started.\<close>

definition timerCallback :: "scheduler \<Rightarrow> scheduler" where
  "timerCallback s = s\<lparr>refreshTimeout := None, passes := Suc (passes s)\<rparr>"

text \<open>Time passes: the timers that are due by then fire, in the order they were set.\<close>

definition elapse :: "nat \<Rightarrow> scheduler \<Rightarrow> scheduler" where
  "elapse t s =
     (let due = filter (\<lambda>x. snd x \<le> now s + t) (timers s);
          s1 = s\<lparr>now := now s + t,
                 timers := filter (\<lambda>x. \<not> snd x \<le> now s + t) (timers s)\<rparr>
      in fold (\<lambda>x. timerCallback) due s1)"

text \<open>
  A burst of change signals: the first signal with its delay, then, for each further
  signal, the time since the signal before and its delay.
\<close>

fun burst :: "nat \<Rightarrow> (nat \<times> nat) list \<Rightarrow> scheduler \<Rightarrow> scheduler" where
  "burst delay [] s = scheduleRefresh delay s"
| "burst delay ((gap, delay1) # rest) s = burst delay1 rest (elapse gap (scheduleRefresh delay s))"

fun withinDelay :: "nat \<Rightarrow> (nat \<times> nat) list \<Rightarrow> bool" where
  "withinDelay delay [] = True"
| "withinDelay delay ((gap, delay1) # rest) = (gap < delay \<and> withinDelay delay1 rest)"

fun lastDelay :: "nat \<Rightarrow> (nat \<times> nat) list \<Rightarrow> nat" where
  "lastDelay delay [] = delay"
| "lastDelay delay ((gap, delay1) # rest) = lastDelay delay1 rest"



section \<open>Example vaults\<close>

text \<open>
  A host whose links are wiki links and whose comparison folds case, and three small
  vaults: the vault of the end-to-end example of the specification (two notes and one
  auto-node), a vault with a note that cannot be read, and a vault whose auto-node has
  its only intro heading between the markers.
\<close>

fun compareFolded :: "string \<Rightarrow> string \<Rightarrow> int" where
  "compareFolded [] [] = 0"
| "compareFolded [] (y # ys) = - 1"
| "compareFolded (x # xs) [] = 1"
| "compareFolded (x # xs) (y # ys) =
     (if (of_char (lowerChar x) :: nat) < of_char (lowerChar y) then - 1
      else if (of_char (lowerChar y) :: nat) < of_char (lowerChar x) then 1
      else compareFolded xs ys)"

definition wikiLinkHost :: host where
  "wikiLinkHost =
     \<lparr>generateMarkdownLink = (\<lambda>f sourcePath. ''[['' @ basename f @ '']]''),
      localeCompare = compareFolded,
      normalizePath = Some,
      basenameOf = (\<lambda>p. takeWhile (\<lambda>c. c \<noteq> CHR ''.'') p)\<rparr>"

definition mdFile :: "string \<Rightarrow> TFile" where
  "mdFile name = \<lparr>TFile.path = name @ ''.md'', basename = name\<rparr>"

definition alphaRecord :: "string \<Rightarrow> AutoNodeRecord" where
  "alphaRecord p = \<lparr>keyword = ''alpha'', caseSensitive = False, matchWholeWord = False, path = p\<rparr>"

definition vaultOf ::
  "TFile list \<Rightarrow> (string \<rightharpoonup> string) \<Rightarrow> (string \<rightharpoonup> AutoNodeRecord) \<Rightarrow> state" where
  "vaultOf files texts records =
     \<lparr>isUpdating = {}, nodeRecords = records, settingsNodes = records, savedNodes = records,
      saveDataFails = False, markdownFiles = files, contents = texts, unwritable = {},
      frontmatters = Map.empty,
      entries = (\<lambda>p. if p \<in> TFile.path ` set files then Some IsFile else None),
      writes = []\<rparr>"

definition exampleVault :: state where
  "exampleVault =
     vaultOf [mdFile ''A'', mdFile ''B'', mdFile ''N'']
       [''A.md'' \<mapsto> ''alpha info'', ''B.md'' \<mapsto> ''nothing here'',
        ''N.md'' \<mapsto> ''# Auto Node\<newline><!-- auto-node:start -->\<newline>_Collecting links..._\<newline><!-- auto-node:end -->\<newline>'']
       [''N.md'' \<mapsto> alphaRecord ''N.md'']"

definition brokenVault :: state where
  "brokenVault =
     vaultOf [mdFile ''D'', mdFile ''N1'', mdFile ''N2'']
       [''N1.md'' \<mapsto> [], ''N2.md'' \<mapsto> []]
       [''N1.md'' \<mapsto> alphaRecord ''N1.md'', ''N2.md'' \<mapsto> alphaRecord ''N2.md'']"

definition headingInsideVault :: state where
  "headingInsideVault =
     vaultOf [mdFile ''N'']
       [''N.md'' \<mapsto> ''<!-- auto-node:start -->\<newline># Auto Node\<newline><!-- auto-node:end -->'']
       [''N.md'' \<mapsto> alphaRecord ''N.md'']"

section \<open>Facts about the string primitives and the merge\<close>

lemma indexOf_Some_prefix:
  "indexOf s p = Some i \<Longrightarrow> i \<le> length s \<and> prefix p (drop i s)"
proof (induction s arbitrary: i)
  case Nil
  then show ?case by (simp split: if_splits)
next
  case (Cons c cs)
  show ?case
  proof (cases "prefix p (c # cs)")
    case True
    with Cons.prems show ?thesis by simp
  next
    case False
    with Cons.prems obtain j where "indexOf cs p = Some j" "i = Suc j" by auto
    with Cons.IH show ?thesis by simp
  qed
qed

lemma indexOf_Some_least:
  "indexOf s p = Some i \<Longrightarrow> j < i \<Longrightarrow> \<not> prefix p (drop j s)"
proof (induction s arbitrary: i j)
  case Nil
  then show ?case by (simp split: if_splits)
next
  case (Cons c cs)
  show ?case
  proof (cases "prefix p (c # cs)")
    case True
    with Cons.prems show ?thesis by simp
  next
    case False
    with Cons.prems obtain i' where i': "indexOf cs p = Some i'" "i = Suc i'" by auto
    show ?thesis
    proof (cases j)
      case 0
      with False show ?thesis by simp
    next
      case (Suc j')
      with Cons.prems i' have "j' < i'" by simp
      with Cons.IH i' have "\<not> prefix p (drop j' cs)" by blast
      with Suc show ?thesis by simp
    qed
  qed
qed

lemma indexOf_None_iff:
  "indexOf s p = None \<longleftrightarrow> (\<forall>j\<le>length s. \<not> prefix p (drop j s))"
proof (induction s)
  case Nil
  then show ?case by simp
next
  case (Cons c cs)
  show ?case
  proof (cases "prefix p (c # cs)")
    case True
    then have "\<not> (\<forall>j\<le>length (c # cs). \<not> prefix p (drop j (c # cs)))"
      by (auto intro: exI[of _ 0])
    moreover from True have "indexOf (c # cs) p \<noteq> None" by simp
    ultimately show ?thesis by blast
  next
    case False
    have "(\<forall>j\<le>length (c # cs). \<not> prefix p (drop j (c # cs))) \<longleftrightarrow>
          (\<forall>j\<le>length cs. \<not> prefix p (drop j cs))"
    proof
      assume h: "\<forall>j\<le>length (c # cs). \<not> prefix p (drop j (c # cs))"
      show "\<forall>j\<le>length cs. \<not> prefix p (drop j cs)"
      proof (intro allI impI)
        fix j assume "j \<le> length cs"
        then have "Suc j \<le> length (c # cs)" by simp
        with h have "\<not> prefix p (drop (Suc j) (c # cs))" by blast
        then show "\<not> prefix p (drop j cs)" by simp
      qed
    next
      assume h: "\<forall>j\<le>length cs. \<not> prefix p (drop j cs)"
      show "\<forall>j\<le>length (c # cs). \<not> prefix p (drop j (c # cs))"
      proof (intro allI impI)
        fix j assume j: "j \<le> length (c # cs)"
        show "\<not> prefix p (drop j (c # cs))"
        proof (cases j)
          case 0 with False show ?thesis by simp
        next
          case (Suc j') with j h show ?thesis by simp
        qed
      qed
    qed
    with False Cons.IH show ?thesis by simp
  qed
qed

lemma indexOf_eqI:
  assumes "i \<le> length s" "prefix p (drop i s)" "\<And>j. j < i \<Longrightarrow> \<not> prefix p (drop j s)"
  shows "indexOf s p = Some i"
proof (cases "indexOf s p")
  case None
  with assms(1,2) show ?thesis by (simp add: indexOf_None_iff)
next
  case (Some k)
  have "\<not> k < i" using indexOf_Some_prefix[OF Some] assms(3) by blast
  moreover have "\<not> i < k" using indexOf_Some_least[OF Some] assms(2) by blast
  ultimately show ?thesis using Some by simp
qed

lemma includesStr_iff:
  "includesStr s p \<longleftrightarrow> (\<exists>j\<le>length s. prefix p (drop j s))"
  by (simp add: includesStr_def indexOf_None_iff)

lemma includesStr_append_mid: "includesStr (xs @ p @ ys) p"
  unfolding includesStr_iff by (intro exI[of _ "length xs"]) simp

lemma includesStr_appendI: "includesStr xs p \<Longrightarrow> includesStr (xs @ ys) p"
  unfolding includesStr_iff
proof -
  assume "\<exists>j\<le>length xs. prefix p (drop j xs)"
  then obtain j where j: "j \<le> length xs" "prefix p (drop j xs)" by blast
  then have "prefix p (drop j xs @ ys)" by (simp add: prefix_prefix)
  with j show "\<exists>j\<le>length (xs @ ys). prefix p (drop j (xs @ ys))"
    by (intro exI[of _ j]) simp
qed

lemma prefix_dropD: "prefix p (drop i s) \<Longrightarrow> drop i s = p @ drop (i + length p) s"
proof -
  assume "prefix p (drop i s)"
  then obtain r where r: "drop i s = p @ r" by (auto simp: prefix_def)
  have "drop (i + length p) s = drop (length p) (drop i s)" by (simp add: add.commute)
  with r show ?thesis by simp
qed

lemma take_add_prefix: "prefix p (drop i s) \<Longrightarrow> take (i + length p) s = take i s @ p"
proof -
  assume "prefix p (drop i s)"
  then obtain r where r: "drop i s = p @ r" by (auto simp: prefix_def)
  have "take (i + length p) s = take i s @ take (length p) (drop i s)" by (rule take_add)
  with r show ?thesis by simp
qed

lemma trimStart_keep: "s \<noteq> [] \<Longrightarrow> \<not> isWhiteSpace (hd s) \<Longrightarrow> trimStart s = s"
  by (cases s) (simp_all add: trimStart_def)

lemma dropWhile_keep: "y \<noteq> [] \<Longrightarrow> \<not> P (hd y) \<Longrightarrow> dropWhile P (y @ z) = y @ z"
  by (cases y) simp_all

lemma trimEnd_append_keep:
  assumes "y \<noteq> []" "\<not> isWhiteSpace (last y)"
  shows "trimEnd (x @ y @ r) = x @ y @ trimEnd r"
proof -
  have y: "dropWhile isWhiteSpace (rev y @ rev x) = rev y @ rev x"
    using assms by (intro dropWhile_keep) (simp_all add: hd_rev)
  show ?thesis
  proof (cases "\<forall>c\<in>set (rev r). isWhiteSpace c")
    case True
    then have "dropWhile isWhiteSpace (rev r) = []" by simp
    moreover from True have "dropWhile isWhiteSpace (rev r @ rev y @ rev x) = rev y @ rev x"
      using y by (simp add: dropWhile_append)
    ultimately show ?thesis by (simp add: trimEnd_def)
  next
    case False
    then obtain c where "c \<in> set (rev r)" "\<not> isWhiteSpace c" by blast
    then have "dropWhile isWhiteSpace (rev r @ rev y @ rev x)
               = dropWhile isWhiteSpace (rev r) @ rev y @ rev x"
      by (rule dropWhile_append1)
    then show ?thesis by (simp add: trimEnd_def)
  qed
qed

lemma isWhiteSpace_NL: "isWhiteSpace NL"
  by (simp add: isWhiteSpace_def NL_def)

lemma trimEnd_trimEnd_NL: "trimEnd (trimEnd r @ [NL]) = trimEnd r"
  by (simp add: trimEnd_def isWhiteSpace_NL)

lemma START_facts:
  "AUTO_NODE_MARKER_START \<noteq> []" "\<not> isWhiteSpace (hd AUTO_NODE_MARKER_START)"
  "\<not> isWhiteSpace (last AUTO_NODE_MARKER_START)" "length AUTO_NODE_MARKER_START = 24"
  "NL \<notin> set AUTO_NODE_MARKER_START"
  by (simp_all add: AUTO_NODE_MARKER_START_def isWhiteSpace_def NL_def)

lemma END_facts:
  "AUTO_NODE_MARKER_END \<noteq> []" "\<not> isWhiteSpace (hd AUTO_NODE_MARKER_END)"
  "\<not> isWhiteSpace (last AUTO_NODE_MARKER_END)" "length AUTO_NODE_MARKER_END = 22"
  "NL \<notin> set AUTO_NODE_MARKER_END"
  by (simp_all add: AUTO_NODE_MARKER_END_def isWhiteSpace_def NL_def)

lemma markers_disjoint:
  assumes s: "prefix AUTO_NODE_MARKER_START (drop s t)"
    and e: "prefix AUTO_NODE_MARKER_END (drop e t)" and le: "s \<le> e"
  shows "s + length AUTO_NODE_MARKER_START \<le> e"
proof (rule ccontr)
  assume "\<not> s + length AUTO_NODE_MARKER_START \<le> e"
  then have d: "e - s < length AUTO_NODE_MARKER_START" using le by simp
  from s obtain r where r: "drop s t = AUTO_NODE_MARKER_START @ r" by (auto simp: prefix_def)
  have "drop e t = drop (e - s) (drop s t)" using le by simp
  with r d have de: "drop e t = drop (e - s) AUTO_NODE_MARKER_START @ r" by simp
  show False
  proof (cases "e - s")
    case 0
    with de e show False
      by (simp add: AUTO_NODE_MARKER_START_def AUTO_NODE_MARKER_END_def)
  next
    case (Suc k)
    from d have ne: "drop (e - s) AUTO_NODE_MARKER_START \<noteq> []" by simp
    from e de ne have "hd (drop (e - s) AUTO_NODE_MARKER_START) = CHR ''<''"
      by (cases "drop (e - s) AUTO_NODE_MARKER_START") (auto simp: AUTO_NODE_MARKER_END_def)
    moreover have "hd (drop (e - s) AUTO_NODE_MARKER_START) = tl AUTO_NODE_MARKER_START ! k"
      using d Suc by (simp add: hd_drop_conv_nth nth_tl)
    moreover have "tl AUTO_NODE_MARKER_START ! k \<in> set (tl AUTO_NODE_MARKER_START)"
      using d Suc by (intro nth_mem) simp
    moreover have "CHR ''<'' \<notin> set (tl AUTO_NODE_MARKER_START)"
      by (simp add: AUTO_NODE_MARKER_START_def)
    ultimately show False by simp
  qed
qed

lemma establishMarkers_includes:
  "includesStr (establishMarkers current) AUTO_NODE_MARKER_START"
  "includesStr (establishMarkers current) AUTO_NODE_MARKER_END"
proof -
  let ?n = "ensureIntroSection (normalizeMarkers current)"
  let ?j = "join [NL] [trimEnd ?n, [], AUTO_NODE_MARKER_START, AUTO_NODE_MARKER_END, []]"
  have j1: "?j = (trimEnd ?n @ [NL, NL]) @ AUTO_NODE_MARKER_START @ (NL # AUTO_NODE_MARKER_END @ [NL])"
    by simp
  have j2: "?j = (trimEnd ?n @ [NL, NL] @ AUTO_NODE_MARKER_START @ [NL]) @ AUTO_NODE_MARKER_END @ [NL]"
    by simp
  have "includesStr ?j AUTO_NODE_MARKER_START"
    unfolding j1 by (rule includesStr_append_mid)
  moreover have "includesStr ?j AUTO_NODE_MARKER_END"
    unfolding j2 by (rule includesStr_append_mid)
  ultimately show "includesStr (establishMarkers current) AUTO_NODE_MARKER_START"
    "includesStr (establishMarkers current) AUTO_NODE_MARKER_END"
    by (simp_all add: establishMarkers_def Let_def)
qed

lemma establishMarkers_keep:
  assumes "includesStr (ensureIntroSection (normalizeMarkers current)) AUTO_NODE_MARKER_START"
    and "includesStr (ensureIntroSection (normalizeMarkers current)) AUTO_NODE_MARKER_END"
  shows "establishMarkers current = ensureIntroSection (normalizeMarkers current)"
  using assms by (simp add: establishMarkers_def Let_def)

lemma merge_splice:
  assumes s: "indexOf (establishMarkers current) AUTO_NODE_MARKER_START = Some s"
    and e: "indexOf (establishMarkers current) AUTO_NODE_MARKER_END = Some e"
    and le: "s \<le> e"
  shows "mergeGeneratedSection current generated kw =
         take s (establishMarkers current) @ AUTO_NODE_MARKER_START @ [NL, NL] @ generated
         @ [NL, NL] @ AUTO_NODE_MARKER_END
         @ trimEnd (drop (e + length AUTO_NODE_MARKER_END) (establishMarkers current)) @ [NL]"
proof -
  let ?n = "establishMarkers current"
  let ?r = "drop (e + length AUTO_NODE_MARKER_END) ?n"
  have before: "take (s + length AUTO_NODE_MARKER_START) ?n = take s ?n @ AUTO_NODE_MARKER_START"
    using indexOf_Some_prefix[OF s] by (simp add: take_add_prefix)
  have after: "drop e ?n = AUTO_NODE_MARKER_END @ ?r"
    using indexOf_Some_prefix[OF e] by (simp add: prefix_dropD)
  have ts: "trimStart (AUTO_NODE_MARKER_END @ ?r) = AUTO_NODE_MARKER_END @ ?r"
    by (rule trimStart_keep) (simp_all add: END_facts)
  have "trimEnd ((take s ?n @ AUTO_NODE_MARKER_START @ [NL, NL] @ generated @ [NL, NL])
                  @ AUTO_NODE_MARKER_END @ ?r)
        = (take s ?n @ AUTO_NODE_MARKER_START @ [NL, NL] @ generated @ [NL, NL])
          @ AUTO_NODE_MARKER_END @ trimEnd ?r"
    by (rule trimEnd_append_keep) (simp_all add: END_facts)
  then have te: "trimEnd (take s ?n @ AUTO_NODE_MARKER_START @ [NL, NL] @ generated @ [NL, NL]
                  @ AUTO_NODE_MARKER_END @ ?r)
        = take s ?n @ AUTO_NODE_MARKER_START @ [NL, NL] @ generated @ [NL, NL]
          @ AUTO_NODE_MARKER_END @ trimEnd ?r"
    by simp
  from le have nlt: "\<not> e < s" by simp
  show ?thesis
    unfolding mergeGeneratedSection_def Let_def s e option.case if_not_P[OF nlt] before after ts
    using te by simp
qed

lemma merge_unchanged:
  assumes "indexOf (establishMarkers current) AUTO_NODE_MARKER_START = Some s"
    and "indexOf (establishMarkers current) AUTO_NODE_MARKER_END = Some e"
    and "e < s"
  shows "mergeGeneratedSection current generated kw = establishMarkers current"
  using assms by (simp add: mergeGeneratedSection_def Let_def)

lemma prefix_take_conv: "prefix p xs \<longleftrightarrow> take (length p) xs = p"
proof
  assume "prefix p xs"
  then show "take (length p) xs = p" by (auto simp: prefix_def)
next
  assume "take (length p) xs = p"
  then show "prefix p xs" by (metis take_is_prefix)
qed

lemma prefix_drop_take:
  assumes "j + length p \<le> m"
  shows "prefix p (drop j (take m s)) \<longleftrightarrow> prefix p (drop j s)"
proof -
  have "take (length p) (drop j (take m s)) = take (length p) (take (m - j) (drop j s))"
    by (simp add: drop_take)
  also have "\<dots> = take (length p) (drop j s)"
    using assms by (simp add: min_def)
  finally show ?thesis by (simp add: prefix_take_conv)
qed

lemma includesStr_length: "includesStr xs p \<Longrightarrow> length p \<le> length xs"
proof -
  assume "includesStr xs p"
  then obtain j where "j \<le> length xs" "prefix p (drop j xs)" by (auto simp: includesStr_iff)
  then have "length p \<le> length (drop j xs)" by (intro prefix_length_le)
  then show ?thesis by simp
qed

lemma not_includesStrD:
  "\<not> includesStr s p \<Longrightarrow> j \<le> length s \<Longrightarrow> \<not> prefix p (drop j s)"
  by (auto simp: includesStr_iff)

lemma includesStr_Nil: "includesStr s []"
  by (auto simp: includesStr_iff intro: exI[of _ 0])

lemma not_includesStr_split:
  assumes c: "c \<notin> set p" and xs: "\<not> includesStr xs p" and ys: "\<not> includesStr ys p"
  shows "\<not> includesStr (xs @ c # ys) p"
proof
  assume "includesStr (xs @ c # ys) p"
  then obtain j where j: "j \<le> length (xs @ c # ys)" "prefix p (drop j (xs @ c # ys))"
    by (auto simp: includesStr_iff)
  show False
  proof (cases "j \<le> length xs")
    case True
    with j have "prefix p (drop j xs @ c # ys)" by simp
    then consider "prefix p (drop j xs)" | us where "p = drop j xs @ us" "prefix us (c # ys)"
      by (auto simp: prefix_append)
    then show False
    proof cases
      case 1
      with True xs show False by (auto simp: includesStr_iff)
    next
      case 2
      show False
      proof (cases us)
        case Nil
        with 2 have "prefix p (drop j xs)" by simp
        with True xs show False by (auto simp: includesStr_iff)
      next
        case (Cons u us')
        with 2 have "u = c" by simp
        with 2 Cons c show False by simp
      qed
    qed
  next
    case False
    then have "drop j (xs @ c # ys) = drop (j - length xs - 1) ys"
      by (simp add: drop_Cons')
    moreover from False j have "j - length xs - 1 \<le> length ys" by simp
    ultimately show False using j ys by (auto simp: includesStr_iff)
  qed
qed

lemma indexOf_append_first:
  assumes ne: "p \<noteq> []" and nb: "\<not> includesStr (xs @ butlast p) p"
  shows "indexOf (xs @ p @ ys) p = Some (length xs)"
proof (rule indexOf_eqI)
  show "length xs \<le> length (xs @ p @ ys)" by simp
  show "prefix p (drop (length xs) (xs @ p @ ys))" by simp
  fix j assume j: "j < length xs"
  let ?m = "length xs + (length p - 1)"
  have tk: "take ?m (xs @ p @ ys) = xs @ butlast p"
    using ne by (simp add: butlast_conv_take)
  from j ne have "j + length p \<le> ?m" by (cases p) simp_all
  then have "prefix p (drop j (take ?m (xs @ p @ ys))) \<longleftrightarrow> prefix p (drop j (xs @ p @ ys))"
    by (rule prefix_drop_take)
  moreover have "\<not> prefix p (drop j (xs @ butlast p))"
    using nb by (rule not_includesStrD) (use j in simp)
  ultimately show "\<not> prefix p (drop j (xs @ p @ ys))" using tk by simp
qed

lemma indexOf_first_not_before:
  assumes i: "indexOf s p = Some i" and ne: "p \<noteq> []"
  shows "\<not> includesStr (take i s @ butlast p) p"
proof
  assume "includesStr (take i s @ butlast p) p"
  then obtain j where j: "j \<le> length (take i s @ butlast p)"
    "prefix p (drop j (take i s @ butlast p))" by (auto simp: includesStr_iff)
  let ?m = "i + (length p - 1)"
  have il: "i \<le> length s" and pre: "prefix p (drop i s)"
    using indexOf_Some_prefix[OF i] by simp_all
  have "take ?m s = take i s @ take (length p - 1) (drop i s)" by (rule take_add)
  moreover have "take (length p - 1) (drop i s) = butlast p"
    using prefix_dropD[OF pre] by (simp add: butlast_conv_take)
  ultimately have tk: "take ?m s = take i s @ butlast p" by simp
  from j(2) have "length p \<le> length (drop j (take i s @ butlast p))"
    by (rule prefix_length_le)
  moreover have "length (take i s @ butlast p) = ?m" using il by simp
  ultimately have "length p \<le> ?m - j" by (simp only: length_drop)
  moreover from ne have "0 < length p" by simp
  ultimately have jm: "j + length p \<le> ?m" and ji: "j < i" by arith+
  from jm have "prefix p (drop j (take ?m s)) \<longleftrightarrow> prefix p (drop j s)"
    by (rule prefix_drop_take)
  with j(2) tk have "prefix p (drop j s)" by simp
  with indexOf_Some_least[OF i ji] show False by simp
qed

lemma drop_length_append: "drop (length xs) (xs @ ys) = ys"
  by simp

lemma ensureIntroSection_keep:
  "includesStr R ''# Auto Node'' \<Longrightarrow> ensureIntroSection R = R"
  by (simp add: ensureIntroSection_def)

lemma merge_fixed:
  assumes nm: "normalizeMarkers (mergeGeneratedSection T G k) = mergeGeneratedSection T G k"
    and intro: "includesStr (mergeGeneratedSection T G k) ''# Auto Node''"
    and g: "\<not> includesStr G AUTO_NODE_MARKER_END"
  shows "mergeGeneratedSection (mergeGeneratedSection T G k) G k = mergeGeneratedSection T G k"
proof -
  let ?S = AUTO_NODE_MARKER_START and ?E = AUTO_NODE_MARKER_END
  let ?R = "mergeGeneratedSection T G k"
  let ?n = "establishMarkers T"
  from establishMarkers_includes[of T] obtain s e
    where s: "indexOf ?n ?S = Some s" and e: "indexOf ?n ?E = Some e"
    by (auto simp: includesStr_def)
  have n12: "ensureIntroSection (normalizeMarkers ?R) = ?R"
    using nm intro by (simp add: ensureIntroSection_keep)
  show ?thesis
  proof (cases "e < s")
    case True
    have R: "?R = ?n" using s e True by (rule merge_unchanged)
    have "establishMarkers ?R = ?R"
      using establishMarkers_includes[of T] n12 R by (simp add: establishMarkers_keep)
    with R have est: "establishMarkers ?R = ?n" by simp
    have "mergeGeneratedSection ?R G k = establishMarkers ?R"
      using s e True unfolding est[symmetric] by (rule merge_unchanged)
    with est R show ?thesis by simp
  next
    case False
    then have le: "s \<le> e" by simp
    let ?rest = "drop (e + length ?E) ?n"
    let ?mid = "[NL, NL] @ G @ [NL, NL]"
    have R: "?R = take s ?n @ ?S @ ?mid @ ?E @ trimEnd ?rest @ [NL]"
      using merge_splice[OF s e le, of G k] by simp
    have sl: "s \<le> length ?n" and sp: "prefix ?S (drop s ?n)"
      using indexOf_Some_prefix[OF s] by simp_all
    have ep: "prefix ?E (drop e ?n)" using indexOf_Some_prefix[OF e] by simp
    have dis: "s + length ?S \<le> e" using sp ep le by (rule markers_disjoint)
    have incS: "includesStr ?R ?S" unfolding R by (rule includesStr_append_mid)
    have "includesStr ((take s ?n @ ?S @ ?mid) @ ?E @ (trimEnd ?rest @ [NL])) ?E"
      by (rule includesStr_append_mid)
    then have incE: "includesStr ?R ?E" unfolding R by simp
    have est: "establishMarkers ?R = ?R"
      using incS incE n12 by (simp add: establishMarkers_keep)
    \<comment> \<open>the first start marker of the result is where it was\<close>
    have "indexOf (take s ?n @ ?S @ (?mid @ ?E @ trimEnd ?rest @ [NL])) ?S = Some (length (take s ?n))"
      using indexOf_first_not_before[OF s] by (intro indexOf_append_first) (simp_all add: START_facts)
    then have sR: "indexOf ?R ?S = Some s" unfolding R using sl by simp
    \<comment> \<open>no end marker starts before the one that closes the new section\<close>
    have bS: "take (s + length ?S) ?n = take s ?n @ ?S" using sp by (rule take_add_prefix)
    have "take (s + length ?S) (take e ?n) = take (s + length ?S) ?n"
      using dis by (simp add: min_def)
    then have "take e ?n = take (s + length ?S) ?n @ drop (s + length ?S) (take e ?n)"
      using append_take_drop_id[of "s + length ?S" "take e ?n"] by simp
    with bS have "take e ?n @ butlast ?E
                  = (take s ?n @ ?S) @ (drop (s + length ?S) (take e ?n) @ butlast ?E)"
      by simp
    with indexOf_first_not_before[OF e] have nb1: "\<not> includesStr (take s ?n @ ?S) ?E"
      using includesStr_appendI[of "take s ?n @ ?S" ?E] by (auto simp: END_facts)
    have nbE: "\<not> includesStr (butlast ?E) ?E"
      using includesStr_length[of "butlast ?E" ?E] by (auto simp: END_facts)
    have nbN: "\<not> includesStr [] ?E"
      using includesStr_length[of "[]" ?E] by (auto simp: END_facts)
    have n1: "\<not> includesStr ((take s ?n @ ?S) @ NL # [] @ NL # G @ NL # [] @ NL # butlast ?E) ?E"
      by (intro not_includesStr_split) (simp_all add: END_facts nbN nbE g nb1)
    then have "\<not> includesStr ((take s ?n @ ?S @ ?mid) @ butlast ?E) ?E" by simp
    then have "indexOf ((take s ?n @ ?S @ ?mid) @ ?E @ (trimEnd ?rest @ [NL])) ?E
               = Some (length (take s ?n @ ?S @ ?mid))"
      by (intro indexOf_append_first) (simp_all add: END_facts)
    moreover define e' where "e' = length (take s ?n @ ?S @ ?mid)"
    ultimately have eR: "indexOf ?R ?E = Some e'" unfolding R by simp
    have le': "s \<le> e'" using sl by (simp add: e'_def)
    have tR: "take s ?R = take s ?n" unfolding R using sl by simp
    have len: "e' + length ?E = length ((take s ?n @ ?S @ ?mid) @ ?E)"
      by (simp add: e'_def)
    have "drop (e' + length ?E) (((take s ?n @ ?S @ ?mid) @ ?E) @ (trimEnd ?rest @ [NL]))
          = trimEnd ?rest @ [NL]"
      unfolding len by (rule drop_length_append)
    then have dR: "drop (e' + length ?E) ?R = trimEnd ?rest @ [NL]"
      unfolding R by simp
    have "mergeGeneratedSection ?R G k =
          take s ?R @ ?S @ [NL, NL] @ G @ [NL, NL] @ ?E
          @ trimEnd (drop (e' + length ?E) ?R) @ [NL]"
      using merge_splice[of ?R s e' G k] sR eR le'
      unfolding est by (simp only:)
    also have "\<dots> = take s ?n @ ?S @ ?mid @ ?E @ trimEnd ?rest @ [NL]"
      unfolding tR dR trimEnd_trimEnd_NL by simp
    finally show ?thesis using R by simp
  qed
qed

lemma of_char_lt_256: "(of_char c :: nat) < 256"
proof -
  have "(of_char c :: nat) mod 256 < 256" by simp
  then show ?thesis by (simp only: of_char_mod_256)
qed

lemma of_char_canonicalize:
  "(of_char (canonicalize c) :: nat) =
     (if (0x61 \<le> (of_char c :: nat) \<and> (of_char c :: nat) \<le> 0x7A)
        \<or> (0xE0 \<le> (of_char c :: nat) \<and> (of_char c :: nat) \<le> 0xFE \<and> (of_char c :: nat) \<noteq> 0xF7)
      then of_char c - 0x20 else of_char c)"
proof -
  have "(of_char c :: nat) - 0x20 < 256" using of_char_lt_256[of c] by arith
  then have "((of_char c :: nat) - 0x20) mod 256 = of_char c - 0x20" by (rule mod_less)
  then show ?thesis by (simp add: canonicalize_def Let_def)
qed

lemma sameChar_caseless:
  assumes "\<not> (0x41 \<le> (of_char p :: nat) \<and> (of_char p :: nat) \<le> 0x5A)"
    and "\<not> (0x61 \<le> (of_char p :: nat) \<and> (of_char p :: nat) \<le> 0x7A)"
    and "\<not> (0xC0 \<le> (of_char p :: nat) \<and> (of_char p :: nat) \<le> 0xDE)"
    and "\<not> (0xE0 \<le> (of_char p :: nat) \<and> (of_char p :: nat) \<le> 0xFE)"
  shows "sameChar True p c \<longleftrightarrow> c = p"
proof -
  have "sameChar True p c \<longleftrightarrow> (of_char (canonicalize p) :: nat) = of_char (canonicalize c)"
    by (simp add: sameChar_def)
  also have "\<dots> \<longleftrightarrow> (of_char p :: nat) = of_char c"
    unfolding of_char_canonicalize using assms by (auto split: if_splits)
  also have "\<dots> \<longleftrightarrow> c = p" by auto
  finally show ?thesis .
qed

lemma sameChar_lt: "sameChar True (CHR ''<'') c \<longleftrightarrow> c = CHR ''<''"
  by (rule sameChar_caseless) simp_all

lemma matchMarker_not_lt: "c \<noteq> CHR ''<'' \<Longrightarrow> matchMarker name (c # cs) = None"
  by (simp add: matchMarker_def sameChar_lt)

lemma matchKeywordComment_not_lt: "c \<noteq> CHR ''<'' \<Longrightarrow> matchKeywordComment (c # cs) = None"
  by (simp add: matchKeywordComment_def sameChar_lt)

lemma matchMarker_Nil: "matchMarker name [] = None"
  by (simp add: matchMarker_def)

lemma matchKeywordComment_Nil: "matchKeywordComment [] = None"
  by (simp add: matchKeywordComment_def)

lemma replaceAll_hit:
  assumes "m (c # p @ ys) = Some ys"
  shows "replaceAll m f (c # p @ ys) = f (c # p) @ replaceAll m f ys"
  using assms by simp

lemma canon_start_end: "canonicalize CHR ''s'' \<noteq> canonicalize CHR ''e''"
  by (simp add: canonicalize_def)

lemma canon_colon_k: "canonicalize CHR '':'' \<noteq> canonicalize CHR '' ''"
  by (simp add: canonicalize_def)

lemma sameChar_refl: "sameChar b c c"
  by (simp add: sameChar_def)

lemma sameChar_mismatch:
  "\<not> sameChar True CHR ''s'' CHR ''e''" "\<not> sameChar True CHR ''e'' CHR ''s''"
  "\<not> sameChar True CHR '' '' CHR '':''"
  by (simp_all add: sameChar_def canonicalize_def)

lemma ws_facts: "isWhiteSpace CHR '' ''" "\<not> isWhiteSpace CHR ''a''" "\<not> isWhiteSpace CHR ''-''"
  by (simp_all add: isWhiteSpace_def)

lemma matchMarker_start_START:
  "matchMarker ''auto-node:start'' (AUTO_NODE_MARKER_START @ ys) = Some ys"
  by (simp add: matchMarker_def AUTO_NODE_MARKER_START_def sameChar_refl ws_facts)

lemma matchMarker_end_END:
  "matchMarker ''auto-node:end'' (AUTO_NODE_MARKER_END @ ys) = Some ys"
  by (simp add: matchMarker_def AUTO_NODE_MARKER_END_def sameChar_refl ws_facts)

lemma matchMarker_start_END:
  "matchMarker ''auto-node:start'' (AUTO_NODE_MARKER_END @ ys) = None"
  by (simp add: matchMarker_def AUTO_NODE_MARKER_END_def sameChar_refl sameChar_mismatch ws_facts)

lemma matchMarker_end_START:
  "matchMarker ''auto-node:end'' (AUTO_NODE_MARKER_START @ ys) = None"
  by (simp add: matchMarker_def AUTO_NODE_MARKER_START_def sameChar_refl sameChar_mismatch ws_facts)

lemma matchKeywordComment_START:
  "matchKeywordComment (AUTO_NODE_MARKER_START @ ys) = None"
  by (simp add: matchKeywordComment_def AUTO_NODE_MARKER_START_def sameChar_refl sameChar_mismatch ws_facts)

lemma matchKeywordComment_END:
  "matchKeywordComment (AUTO_NODE_MARKER_END @ ys) = None"
  by (simp add: matchKeywordComment_def AUTO_NODE_MARKER_END_def sameChar_refl sameChar_mismatch ws_facts)

lemma replaceAll_free:
  assumes "\<And>c cs. c \<noteq> CHR ''<'' \<Longrightarrow> m (c # cs) = None"
    and "CHR ''<'' \<notin> set xs"
  shows "replaceAll m f (xs @ ys) = xs @ replaceAll m f ys"
  using assms(2)
proof (induction xs)
  case Nil
  then show ?case by simp
next
  case (Cons a xs)
  then have "a \<noteq> CHR ''<''" by auto
  then have "m (a # xs @ ys) = None" by (rule assms(1))
  with Cons show ?case by simp
qed

lemma replaceAll_miss:
  assumes "\<And>c cs. c \<noteq> CHR ''<'' \<Longrightarrow> m (c # cs) = None"
    and "m (p @ ys) = None" and "p \<noteq> []" and "CHR ''<'' \<notin> set (tl p)"
  shows "replaceAll m f (p @ ys) = p @ replaceAll m f ys"
proof (cases p)
  case Nil
  with assms(3) show ?thesis by simp
next
  case (Cons c p')
  with assms(4) have "replaceAll m f (p' @ ys) = p' @ replaceAll m f ys"
    by (intro replaceAll_free assms(1)) simp_all
  with Cons assms(2) show ?thesis by simp
qed

lemma replaceAll_same:
  assumes "m (p @ ys) = Some ys" and "p \<noteq> []" and "f p = p"
  shows "replaceAll m f (p @ ys) = p @ replaceAll m f ys"
proof (cases p)
  case Nil
  with assms(2) show ?thesis by simp
next
  case (Cons c p')
  with assms(1) have "replaceAll m f (c # p' @ ys) = f (c # p') @ replaceAll m f ys"
    by (intro replaceAll_hit) simp
  with Cons assms(3) show ?thesis by simp
qed

lemma marker_tl_free:
  "CHR ''<'' \<notin> set (tl AUTO_NODE_MARKER_START)" "CHR ''<'' \<notin> set (tl AUTO_NODE_MARKER_END)"
  by (simp_all add: AUTO_NODE_MARKER_START_def AUTO_NODE_MARKER_END_def)

lemma normalizeMarkers_Nil: "normalizeMarkers [] = []"
  by (simp add: normalizeMarkers_def matchMarker_Nil matchKeywordComment_Nil)

lemma normalizeMarkers_free:
  assumes "CHR ''<'' \<notin> set xs"
  shows "normalizeMarkers (xs @ ys) = xs @ normalizeMarkers ys"
  using assms
  by (simp add: normalizeMarkers_def replaceAll_free matchMarker_not_lt matchKeywordComment_not_lt)

lemma normalizeMarkers_START:
  "normalizeMarkers (AUTO_NODE_MARKER_START @ ys) = AUTO_NODE_MARKER_START @ normalizeMarkers ys"
  by (simp add: normalizeMarkers_def replaceAll_miss replaceAll_same START_facts marker_tl_free
      matchMarker_not_lt matchKeywordComment_not_lt matchKeywordComment_START
      matchMarker_start_START matchMarker_end_START)

lemma normalizeMarkers_END:
  "normalizeMarkers (AUTO_NODE_MARKER_END @ ys) = AUTO_NODE_MARKER_END @ normalizeMarkers ys"
  by (simp add: normalizeMarkers_def replaceAll_miss replaceAll_same END_facts marker_tl_free
      matchMarker_not_lt matchKeywordComment_not_lt matchKeywordComment_END
      matchMarker_start_END matchMarker_end_END)

lemma normalizeMarkers_canonical:
  assumes "CHR ''<'' \<notin> set xs" "CHR ''<'' \<notin> set mid" "CHR ''<'' \<notin> set zs"
  shows "normalizeMarkers (xs @ AUTO_NODE_MARKER_START @ mid @ AUTO_NODE_MARKER_END @ zs)
         = xs @ AUTO_NODE_MARKER_START @ mid @ AUTO_NODE_MARKER_END @ zs"
proof -
  have "normalizeMarkers zs = zs"
    using normalizeMarkers_free[OF assms(3), of "[]"] by (simp add: normalizeMarkers_Nil)
  then show ?thesis
    by (simp add: normalizeMarkers_free[OF assms(1)] normalizeMarkers_free[OF assms(2)]
        normalizeMarkers_START normalizeMarkers_END)
qed

lemma includesStr_skip_free:
  assumes "p \<noteq> []" and "hd p \<notin> set xs" and "includesStr (xs @ ys) p"
  shows "includesStr ys p"
  using assms(2,3)
proof (induction xs)
  case Nil
  then show ?case by simp
next
  case (Cons a xs)
  from Cons.prems(1) assms(1) have "\<not> prefix p (a # xs @ ys)"
    by (cases p) auto
  with Cons.prems(2) have "includesStr (xs @ ys) p"
    by (auto simp: includesStr_def)
  with Cons.IH Cons.prems(1) show ?case by simp
qed

lemma includesStr_skip_mismatch:
  "\<not> prefix p (c # ys) \<Longrightarrow> includesStr (c # ys) p \<Longrightarrow> includesStr ys p"
  by (auto simp: includesStr_def)

lemma not_includesStr_free:
  assumes "p \<noteq> []" and "hd p \<notin> set s"
  shows "\<not> includesStr s p"
proof
  assume "includesStr s p"
  then have "includesStr (s @ []) p" by simp
  with assms have "includesStr [] p" by (rule includesStr_skip_free)
  with assms(1) show False by (simp add: includesStr_def)
qed

lemma marker_hd: "hd AUTO_NODE_MARKER_START = CHR ''<''" "hd AUTO_NODE_MARKER_END = CHR ''<''"
  by (simp_all add: AUTO_NODE_MARKER_START_def AUTO_NODE_MARKER_END_def)

lemma indexOf_START_canonical:
  assumes "CHR ''<'' \<notin> set xs"
  shows "indexOf (xs @ AUTO_NODE_MARKER_START @ ys) AUTO_NODE_MARKER_START = Some (length xs)"
proof (rule indexOf_append_first)
  show "AUTO_NODE_MARKER_START \<noteq> []" by (rule START_facts)
  show "\<not> includesStr (xs @ butlast AUTO_NODE_MARKER_START) AUTO_NODE_MARKER_START"
  proof
    assume "includesStr (xs @ butlast AUTO_NODE_MARKER_START) AUTO_NODE_MARKER_START"
    moreover have "hd AUTO_NODE_MARKER_START \<notin> set xs" using assms by (simp add: marker_hd)
    ultimately have "includesStr (butlast AUTO_NODE_MARKER_START) AUTO_NODE_MARKER_START"
      using START_facts(1) includesStr_skip_free by blast
    from includesStr_length[OF this] show False by (simp add: START_facts)
  qed
qed

lemma END_not_prefix_START:
  "\<not> prefix AUTO_NODE_MARKER_END (AUTO_NODE_MARKER_START @ ys)"
  by (simp add: AUTO_NODE_MARKER_START_def AUTO_NODE_MARKER_END_def)

lemma indexOf_END_canonical:
  assumes "CHR ''<'' \<notin> set xs" and "CHR ''<'' \<notin> set mid"
  shows "indexOf ((xs @ AUTO_NODE_MARKER_START @ mid) @ AUTO_NODE_MARKER_END @ zs)
           AUTO_NODE_MARKER_END = Some (length (xs @ AUTO_NODE_MARKER_START @ mid))"
proof (rule indexOf_append_first)
  let ?S = AUTO_NODE_MARKER_START and ?E = AUTO_NODE_MARKER_END
  show "?E \<noteq> []" by (rule END_facts)
  show "\<not> includesStr ((xs @ ?S @ mid) @ butlast ?E) ?E"
  proof
    assume "includesStr ((xs @ ?S @ mid) @ butlast ?E) ?E"
    then have "includesStr (xs @ (?S @ mid @ butlast ?E)) ?E" by simp
    moreover have hx: "hd ?E \<notin> set xs" using assms(1) by (simp add: marker_hd)
    ultimately have a: "includesStr (?S @ mid @ butlast ?E) ?E"
      using END_facts(1) includesStr_skip_free by blast
    obtain t where t: "?S = CHR ''<'' # t" "t = tl ?S"
      by (simp add: AUTO_NODE_MARKER_START_def)
    have "includesStr (CHR ''<'' # (t @ mid @ butlast ?E)) ?E"
      using a unfolding t(1) by simp
    moreover have "\<not> prefix ?E (CHR ''<'' # (t @ mid @ butlast ?E))"
      using END_not_prefix_START[of "mid @ butlast ?E"] unfolding t(1) by simp
    ultimately have "includesStr (t @ mid @ butlast ?E) ?E"
      by (rule includesStr_skip_mismatch[rotated])
    then have "includesStr ((t @ mid) @ butlast ?E) ?E" by simp
    moreover have "hd ?E \<notin> set (t @ mid)"
      using assms(2) marker_tl_free(1) t(2) by (simp add: marker_hd)
    ultimately have "includesStr (butlast ?E) ?E"
      using END_facts(1) includesStr_skip_free by blast
    from includesStr_length[OF this] show False by (simp add: END_facts)
  qed
qed

lemma merge_canonical:
  assumes est: "establishMarkers T = xs @ AUTO_NODE_MARKER_START @ mid @ AUTO_NODE_MARKER_END @ zs"
    and xs: "CHR ''<'' \<notin> set xs" and mid: "CHR ''<'' \<notin> set mid"
  shows "mergeGeneratedSection T G k =
         xs @ AUTO_NODE_MARKER_START @ [NL, NL] @ G @ [NL, NL] @ AUTO_NODE_MARKER_END
         @ trimEnd zs @ [NL]"
proof -
  let ?S = AUTO_NODE_MARKER_START and ?E = AUTO_NODE_MARKER_END
  let ?e = "length (xs @ ?S @ mid)"
  have s: "indexOf (establishMarkers T) ?S = Some (length xs)"
    unfolding est using xs by (rule indexOf_START_canonical)
  have "indexOf ((xs @ ?S @ mid) @ ?E @ zs) ?E = Some ?e"
    using xs mid by (rule indexOf_END_canonical)
  then have e: "indexOf (establishMarkers T) ?E = Some ?e" unfolding est by simp
  have le: "length xs \<le> ?e" by simp
  have len: "?e + length ?E = length ((xs @ ?S @ mid) @ ?E)" by simp
  have "drop (?e + length ?E) (((xs @ ?S @ mid) @ ?E) @ zs) = zs"
    unfolding len by (rule drop_length_append)
  then have d: "drop (?e + length ?E) (establishMarkers T) = zs" unfolding est by simp
  have t: "take (length xs) (establishMarkers T) = xs" unfolding est by simp
  show ?thesis using merge_splice[OF s e le, of G k] unfolding d t by simp
qed

lemma establishMarkers_canonical:
  assumes "CHR ''<'' \<notin> set xs" "CHR ''<'' \<notin> set mid" "CHR ''<'' \<notin> set zs"
    and "includesStr (xs @ AUTO_NODE_MARKER_START @ mid @ AUTO_NODE_MARKER_END @ zs) ''# Auto Node''"
  shows "establishMarkers (xs @ AUTO_NODE_MARKER_START @ mid @ AUTO_NODE_MARKER_END @ zs)
         = xs @ AUTO_NODE_MARKER_START @ mid @ AUTO_NODE_MARKER_END @ zs"
proof -
  let ?S = AUTO_NODE_MARKER_START and ?E = AUTO_NODE_MARKER_END
  let ?T = "xs @ ?S @ mid @ ?E @ zs"
  have n: "ensureIntroSection (normalizeMarkers ?T) = ?T"
    using assms by (simp add: normalizeMarkers_canonical ensureIntroSection_keep)
  have "includesStr ?T ?S" by (rule includesStr_append_mid)
  moreover have "includesStr ((xs @ ?S @ mid) @ ?E @ zs) ?E" by (rule includesStr_append_mid)
  ultimately show ?thesis using n by (simp add: establishMarkers_keep)
qed

lemma merge_wellformed:
  assumes "CHR ''<'' \<notin> set xs" "CHR ''<'' \<notin> set mid" "CHR ''<'' \<notin> set zs"
    and "includesStr (xs @ AUTO_NODE_MARKER_START @ mid @ AUTO_NODE_MARKER_END @ zs) ''# Auto Node''"
  shows "mergeGeneratedSection (xs @ AUTO_NODE_MARKER_START @ mid @ AUTO_NODE_MARKER_END @ zs) G k
         = xs @ AUTO_NODE_MARKER_START @ [NL, NL] @ G @ [NL, NL] @ AUTO_NODE_MARKER_END
           @ trimEnd zs @ [NL]"
  using establishMarkers_canonical[OF assms] assms(1,2) by (rule merge_canonical)

section \<open>The merge of the generated section\<close>

subsection \<open>C1: merging twice\<close>

lemma intro_facts:
  "CHR ''<'' \<notin> set AUTO_NODE_INTRO" "AUTO_NODE_INTRO \<noteq> []" "hd AUTO_NODE_INTRO = CHR ''#''"
  by (simp_all add: AUTO_NODE_INTRO_def NL_def)

lemma doc1_shape:
  "''# Auto Node\<newline><!-- auto-node:start -->\<newline>_Collecting links..._\<newline><!-- auto-node:end -->\<newline>''
   = ''# Auto Node\<newline>'' @ AUTO_NODE_MARKER_START @ ''\<newline>_Collecting links..._\<newline>''
     @ AUTO_NODE_MARKER_END @ ''\<newline>''"
  by (simp add: AUTO_NODE_MARKER_START_def AUTO_NODE_MARKER_END_def)

lemma heading_first:
  "includesStr (''# Auto Node\<newline>'' @ ys) ''# Auto Node''"
proof -
  have "includesStr ([] @ ''# Auto Node'' @ (CHR 0x0A # ys)) ''# Auto Node''"
    by (rule includesStr_append_mid)
  then show ?thesis by simp
qed

lemma trimEnd_NL: "trimEnd ''\<newline>'' = []" "trimEnd [] = []" "trimEnd [NL] = []"
  by (simp_all add: trimEnd_def isWhiteSpace_def NL_def)

lemma doc1_merge:
  "mergeGeneratedSection
     ''# Auto Node\<newline><!-- auto-node:start -->\<newline>_Collecting links..._\<newline><!-- auto-node:end -->\<newline>''
     ''- [[A]]'' ''alpha''
   = ''# Auto Node\<newline>'' @ AUTO_NODE_MARKER_START @ [NL, NL] @ ''- [[A]]'' @ [NL, NL]
     @ AUTO_NODE_MARKER_END @ [NL]"
  unfolding doc1_shape
  by (subst merge_wellformed) (simp_all add: includesStr_def trimEnd_NL)

lemma doc1_result_normal:
  "normalizeMarkers (''# Auto Node\<newline>'' @ AUTO_NODE_MARKER_START @ [NL, NL] @ ''- [[A]]'' @ [NL, NL]
     @ AUTO_NODE_MARKER_END @ [NL])
   = ''# Auto Node\<newline>'' @ AUTO_NODE_MARKER_START @ [NL, NL] @ ''- [[A]]'' @ [NL, NL]
     @ AUTO_NODE_MARKER_END @ [NL]"
proof -
  have "normalizeMarkers (''# Auto Node\<newline>'' @ AUTO_NODE_MARKER_START @ ([NL, NL] @ ''- [[A]]'' @ [NL, NL])
     @ AUTO_NODE_MARKER_END @ [NL])
   = ''# Auto Node\<newline>'' @ AUTO_NODE_MARKER_START @ ([NL, NL] @ ''- [[A]]'' @ [NL, NL])
     @ AUTO_NODE_MARKER_END @ [NL]"
    by (rule normalizeMarkers_canonical) (simp_all add: NL_def)
  then show ?thesis by simp
qed



lemma doc0_shape:
  "''<!-- auto-node:start -->\<newline># Auto Node\<newline><!-- auto-node:end -->''
   = [] @ AUTO_NODE_MARKER_START @ ''\<newline># Auto Node\<newline>'' @ AUTO_NODE_MARKER_END @ []"
  by (simp add: AUTO_NODE_MARKER_START_def AUTO_NODE_MARKER_END_def)

lemma doc0_heading:
  "includesStr ([] @ AUTO_NODE_MARKER_START @ ''\<newline># Auto Node\<newline>'' @ AUTO_NODE_MARKER_END @ [])
     ''# Auto Node''"
proof -
  have "includesStr ((AUTO_NODE_MARKER_START @ ''\<newline>'') @ ''# Auto Node''
          @ (''\<newline>'' @ AUTO_NODE_MARKER_END)) ''# Auto Node''"
    by (rule includesStr_append_mid)
  then show ?thesis by simp
qed

lemma doc0_merge:
  "mergeGeneratedSection
     ''<!-- auto-node:start -->\<newline># Auto Node\<newline><!-- auto-node:end -->''
     ''_No matching notes yet._'' ''alpha''
   = AUTO_NODE_MARKER_START @ [NL, NL] @ ''_No matching notes yet._'' @ [NL, NL]
     @ AUTO_NODE_MARKER_END @ [NL]"
proof -
  have "mergeGeneratedSection
     ([] @ AUTO_NODE_MARKER_START @ ''\<newline># Auto Node\<newline>'' @ AUTO_NODE_MARKER_END @ [])
     ''_No matching notes yet._'' ''alpha''
   = [] @ AUTO_NODE_MARKER_START @ [NL, NL] @ ''_No matching notes yet._'' @ [NL, NL]
     @ AUTO_NODE_MARKER_END @ trimEnd [] @ [NL]"
    using doc0_heading by (intro merge_wellformed) simp_all
  then show ?thesis unfolding doc0_shape by (simp add: trimEnd_NL)
qed

lemma ensureIntroSection_prepend:
  assumes "\<not> includesStr R ''# Auto Node''" "matchFrontmatter R = None"
    and "trimStart R = R" "R \<noteq> []"
  shows "ensureIntroSection R = AUTO_NODE_INTRO @ [NL] @ R"
  using assms by (simp add: ensureIntroSection_def)

lemma doc0_second:
  "mergeGeneratedSection
     (AUTO_NODE_MARKER_START @ [NL, NL] @ ''_No matching notes yet._'' @ [NL, NL]
      @ AUTO_NODE_MARKER_END @ [NL])
     ''_No matching notes yet._'' ''alpha''
   = (AUTO_NODE_INTRO @ [NL]) @ AUTO_NODE_MARKER_START @ [NL, NL] @ ''_No matching notes yet._''
     @ [NL, NL] @ AUTO_NODE_MARKER_END @ [NL]"
proof -
  define mid where "mid = [NL, NL] @ ''_No matching notes yet._'' @ [NL, NL]"
  define R where "R = AUTO_NODE_MARKER_START @ mid @ AUTO_NODE_MARKER_END @ [NL]"
  have midfree: "CHR ''<'' \<notin> set mid" by (simp add: mid_def NL_def)
  have "normalizeMarkers ([] @ AUTO_NODE_MARKER_START @ mid @ AUTO_NODE_MARKER_END @ [NL])
        = [] @ AUTO_NODE_MARKER_START @ mid @ AUTO_NODE_MARKER_END @ [NL]"
    using midfree by (intro normalizeMarkers_canonical) (simp_all add: NL_def)
  then have nm: "normalizeMarkers R = R" by (simp add: R_def)
  have nh: "\<not> includesStr R ''# Auto Node''"
    by (rule not_includesStr_free)
       (simp_all add: R_def mid_def AUTO_NODE_MARKER_START_def AUTO_NODE_MARKER_END_def NL_def)
  have fm: "matchFrontmatter R = None"
    by (simp add: R_def matchFrontmatter_def AUTO_NODE_MARKER_START_def)
  have ts: "trimStart R = R"
    by (rule trimStart_keep) (simp_all add: R_def START_facts)
  have ne: "R \<noteq> []" by (simp add: R_def START_facts)
  have intro: "ensureIntroSection R = AUTO_NODE_INTRO @ [NL] @ R"
    using nh fm ts ne by (rule ensureIntroSection_prepend)
  have "includesStr ((AUTO_NODE_INTRO @ [NL]) @ AUTO_NODE_MARKER_START
          @ (mid @ AUTO_NODE_MARKER_END @ [NL])) AUTO_NODE_MARKER_START"
    by (rule includesStr_append_mid)
  then have iS: "includesStr (AUTO_NODE_INTRO @ [NL] @ R) AUTO_NODE_MARKER_START"
    by (simp add: R_def)
  have "includesStr (((AUTO_NODE_INTRO @ [NL]) @ AUTO_NODE_MARKER_START @ mid)
          @ AUTO_NODE_MARKER_END @ [NL]) AUTO_NODE_MARKER_END"
    by (rule includesStr_append_mid)
  then have iE: "includesStr (AUTO_NODE_INTRO @ [NL] @ R) AUTO_NODE_MARKER_END"
    by (simp add: R_def)
  have "establishMarkers R = AUTO_NODE_INTRO @ [NL] @ R"
    using establishMarkers_keep[of R] iS iE unfolding nm intro by blast
  then have est: "establishMarkers R = (AUTO_NODE_INTRO @ [NL]) @ AUTO_NODE_MARKER_START
                          @ mid @ AUTO_NODE_MARKER_END @ [NL]"
    by (simp add: R_def)
  have "mergeGeneratedSection R ''_No matching notes yet._'' ''alpha''
        = (AUTO_NODE_INTRO @ [NL]) @ AUTO_NODE_MARKER_START @ [NL, NL] @ ''_No matching notes yet._''
          @ [NL, NL] @ AUTO_NODE_MARKER_END @ trimEnd [NL] @ [NL]"
    using est by (rule merge_canonical) (simp_all add: intro_facts midfree NL_def)
  then show ?thesis by (simp add: trimEnd_NL R_def mid_def)
qed


subsection \<open>C2: what lies outside the markers\<close>

lemma merge_after_steps12:
  assumes s: "indexOf (ensureIntroSection (normalizeMarkers T)) AUTO_NODE_MARKER_START = Some s"
    and e: "indexOf (ensureIntroSection (normalizeMarkers T)) AUTO_NODE_MARKER_END = Some e"
    and le: "s \<le> e"
  shows "mergeGeneratedSection T G k =
         take s (ensureIntroSection (normalizeMarkers T)) @ AUTO_NODE_MARKER_START
         @ [NL, NL] @ G @ [NL, NL] @ AUTO_NODE_MARKER_END
         @ trimEnd (drop (e + length AUTO_NODE_MARKER_END) (ensureIntroSection (normalizeMarkers T)))
         @ [NL]"
proof -
  have est: "establishMarkers T = ensureIntroSection (normalizeMarkers T)"
    using s e by (intro establishMarkers_keep) (simp_all add: includesStr_def)
  show ?thesis using merge_splice[of T s e G k] s e le unfolding est by simp
qed

lemma doc2_shape:
  "''# Auto Node\<newline><!-- auto-node:start -->\<newline><!-- auto-node:end -->\<newline>my notes\<newline>''
   = ''# Auto Node\<newline>'' @ AUTO_NODE_MARKER_START @ ''\<newline>'' @ AUTO_NODE_MARKER_END
     @ ''\<newline>my notes\<newline>''"
  by (simp add: AUTO_NODE_MARKER_START_def AUTO_NODE_MARKER_END_def)

lemma doc3_shape:
  "''# Auto Node\<newline><!-- auto-node:start -->\<newline><!-- auto-node:end -->\<newline>my notes\<newline>\<newline>''
   = ''# Auto Node\<newline>'' @ AUTO_NODE_MARKER_START @ ''\<newline>'' @ AUTO_NODE_MARKER_END
     @ ''\<newline>my notes\<newline>\<newline>''"
  by (simp add: AUTO_NODE_MARKER_START_def AUTO_NODE_MARKER_END_def)

lemma steps12_wellformed:
  assumes "CHR ''<'' \<notin> set xs" "CHR ''<'' \<notin> set mid" "CHR ''<'' \<notin> set zs"
    and "includesStr (xs @ AUTO_NODE_MARKER_START @ mid @ AUTO_NODE_MARKER_END @ zs) ''# Auto Node''"
  shows "ensureIntroSection (normalizeMarkers
           (xs @ AUTO_NODE_MARKER_START @ mid @ AUTO_NODE_MARKER_END @ zs))
         = xs @ AUTO_NODE_MARKER_START @ mid @ AUTO_NODE_MARKER_END @ zs"
  using assms by (simp add: normalizeMarkers_canonical ensureIntroSection_keep)

lemma indexOf_END_wellformed:
  assumes "CHR ''<'' \<notin> set xs" and "CHR ''<'' \<notin> set mid"
  shows "indexOf (xs @ AUTO_NODE_MARKER_START @ mid @ AUTO_NODE_MARKER_END @ zs)
           AUTO_NODE_MARKER_END = Some (length xs + 24 + length mid)"
  using indexOf_END_canonical[OF assms, of zs] by (simp add: START_facts)

text \<open>
  Claim C2 (containment): for a text that, after marker normalisation and intro insertion
  (steps 1 and 2), has its first start marker before its first end marker, the result of
  \<open>mergeGeneratedSection\<close> keeps what lies before the start marker byte for byte. What
  lies after the end marker is kept up to its trailing white space: the last step of the
  merge, \<open>trimEnd() + "\n"\<close>, replaces that by exactly one line break. So the content
  after the end marker is not byte-identical in general, which the claim as stated asks.
\<close>

theorem mergeGeneratedSection_containment:
  assumes "indexOf (ensureIntroSection (normalizeMarkers T)) AUTO_NODE_MARKER_START = Some s"
    and "indexOf (ensureIntroSection (normalizeMarkers T)) AUTO_NODE_MARKER_END = Some e"
    and "s \<le> e"
  shows "mergeGeneratedSection T G k =
         take s (ensureIntroSection (normalizeMarkers T)) @ AUTO_NODE_MARKER_START
         @ [NL, NL] @ G @ [NL, NL] @ AUTO_NODE_MARKER_END
         @ trimEnd (drop (e + length AUTO_NODE_MARKER_END) (ensureIntroSection (normalizeMarkers T)))
         @ [NL]"
  using assms by (rule merge_after_steps12)

text \<open>A document with notes after the end marker that end in one line break.\<close>

theorem mergeGeneratedSection_containment_witness:
  "indexOf (ensureIntroSection (normalizeMarkers
      ''# Auto Node\<newline><!-- auto-node:start -->\<newline><!-- auto-node:end -->\<newline>my notes\<newline>''))
     AUTO_NODE_MARKER_START = Some 12
   \<and> indexOf (ensureIntroSection (normalizeMarkers
      ''# Auto Node\<newline><!-- auto-node:start -->\<newline><!-- auto-node:end -->\<newline>my notes\<newline>''))
     AUTO_NODE_MARKER_END = Some 37
   \<and> (12 :: nat) \<le> 37
   \<and> mergeGeneratedSection
      ''# Auto Node\<newline><!-- auto-node:start -->\<newline><!-- auto-node:end -->\<newline>my notes\<newline>''
      ''- [[A]]'' ''alpha''
     = ''# Auto Node\<newline>'' @ AUTO_NODE_MARKER_START @ ''\<newline>\<newline>- [[A]]\<newline>\<newline>''
       @ AUTO_NODE_MARKER_END @ ''\<newline>my notes\<newline>''"
proof -
  let ?T = "''# Auto Node\<newline><!-- auto-node:start -->\<newline><!-- auto-node:end -->\<newline>my notes\<newline>''"
  let ?N = "''# Auto Node\<newline>'' @ AUTO_NODE_MARKER_START @ ''\<newline>'' @ AUTO_NODE_MARKER_END
     @ ''\<newline>my notes\<newline>''"
  have n: "ensureIntroSection (normalizeMarkers ?T) = ?N"
    unfolding doc2_shape by (rule steps12_wellformed) (simp_all add: includesStr_def)
  have s: "indexOf (ensureIntroSection (normalizeMarkers ?T)) AUTO_NODE_MARKER_START = Some 12"
    unfolding n using indexOf_START_canonical[of "''# Auto Node\<newline>''"] by simp
  have e: "indexOf (ensureIntroSection (normalizeMarkers ?T)) AUTO_NODE_MARKER_END = Some 37"
    unfolding n using indexOf_END_wellformed[of "''# Auto Node\<newline>''" "''\<newline>''"] by simp
  have le: "(12 :: nat) \<le> 37" by simp
  have t: "take 12 ?N = ''# Auto Node\<newline>''" by simp
  have "drop (length (''# Auto Node\<newline>'' @ AUTO_NODE_MARKER_START @ ''\<newline>'' @ AUTO_NODE_MARKER_END))
          ((''# Auto Node\<newline>'' @ AUTO_NODE_MARKER_START @ ''\<newline>'' @ AUTO_NODE_MARKER_END)
           @ ''\<newline>my notes\<newline>'') = ''\<newline>my notes\<newline>''"
    by (rule drop_length_append)
  then have d: "drop (37 + length AUTO_NODE_MARKER_END) ?N = ''\<newline>my notes\<newline>''"
    by (simp add: START_facts END_facts)
  have te: "trimEnd ''\<newline>my notes\<newline>'' = ''\<newline>my notes''"
    by (simp add: trimEnd_def isWhiteSpace_def)
  from mergeGeneratedSection_containment[OF s e le, of "''- [[A]]''" "''alpha''"]
  have "mergeGeneratedSection ?T ''- [[A]]'' ''alpha''
     = ''# Auto Node\<newline>'' @ AUTO_NODE_MARKER_START @ ''\<newline>\<newline>- [[A]]\<newline>\<newline>''
       @ AUTO_NODE_MARKER_END @ ''\<newline>my notes\<newline>''"
    unfolding n t d te by (simp add: NL_def)
  with s e le show ?thesis by blast
qed

text \<open>
  C2 as stated fails when the notes after the end marker end in two line breaks: steps 1
  and 2 leave the text as it is, and the merge removes one of the two line breaks.
\<close>

theorem mergeGeneratedSection_containment_counterexample:
  "ensureIntroSection (normalizeMarkers
      ''# Auto Node\<newline><!-- auto-node:start -->\<newline><!-- auto-node:end -->\<newline>my notes\<newline>\<newline>'')
     = ''# Auto Node\<newline><!-- auto-node:start -->\<newline><!-- auto-node:end -->\<newline>my notes\<newline>\<newline>''
   \<and> mergeGeneratedSection
      ''# Auto Node\<newline><!-- auto-node:start -->\<newline><!-- auto-node:end -->\<newline>my notes\<newline>\<newline>''
      ''- [[A]]'' ''alpha''
     = ''# Auto Node\<newline><!-- auto-node:start -->\<newline>\<newline>- [[A]]\<newline>\<newline><!-- auto-node:end -->\<newline>my notes\<newline>''
   \<and> \<not> suffix ''\<newline>my notes\<newline>\<newline>''
        (mergeGeneratedSection
          ''# Auto Node\<newline><!-- auto-node:start -->\<newline><!-- auto-node:end -->\<newline>my notes\<newline>\<newline>''
          ''- [[A]]'' ''alpha'')"
proof -
  let ?T = "''# Auto Node\<newline><!-- auto-node:start -->\<newline><!-- auto-node:end -->\<newline>my notes\<newline>\<newline>''"
  have n: "ensureIntroSection (normalizeMarkers ?T) = ?T"
    unfolding doc3_shape by (rule steps12_wellformed) (simp_all add: includesStr_def)
  have te: "trimEnd ''\<newline>my notes\<newline>\<newline>'' = ''\<newline>my notes''"
    by (simp add: trimEnd_def isWhiteSpace_def)
  have "mergeGeneratedSection
          (''# Auto Node\<newline>'' @ AUTO_NODE_MARKER_START @ ''\<newline>'' @ AUTO_NODE_MARKER_END
           @ ''\<newline>my notes\<newline>\<newline>'') ''- [[A]]'' ''alpha''
        = ''# Auto Node\<newline>'' @ AUTO_NODE_MARKER_START @ [NL, NL] @ ''- [[A]]'' @ [NL, NL]
          @ AUTO_NODE_MARKER_END @ trimEnd ''\<newline>my notes\<newline>\<newline>'' @ [NL]"
    by (rule merge_wellformed) (simp_all add: includesStr_def)
  then have m: "mergeGeneratedSection ?T ''- [[A]]'' ''alpha''
     = ''# Auto Node\<newline><!-- auto-node:start -->\<newline>\<newline>- [[A]]\<newline>\<newline><!-- auto-node:end -->\<newline>my notes\<newline>''"
    unfolding doc3_shape[symmetric] te
    by (simp add: NL_def AUTO_NODE_MARKER_START_def AUTO_NODE_MARKER_END_def)
  have "\<not> suffix ''\<newline>my notes\<newline>\<newline>'' (mergeGeneratedSection ?T ''- [[A]]'' ''alpha'')"
    unfolding m by (simp add: suffix_to_prefix)
  with n m show ?thesis by blast
qed

subsection \<open>C4: locating the markers\<close>






section \<open>The keyword matcher\<close>

subsection \<open>C6: whole words\<close>












subsection \<open>C9: the case of the body\<close>




















section \<open>Synchronization, renaming and the timer\<close>

subsection \<open>C10: the in-progress set\<close>

lemma saveSettingsLogged_frame:
  "isUpdating (saveSettingsLogged st) = isUpdating st"
  "contents (saveSettingsLogged st) = contents st"
  "writes (saveSettingsLogged st) = writes st"
  "markdownFiles (saveSettingsLogged st) = markdownFiles st"
  "unwritable (saveSettingsLogged st) = unwritable st"
  "nodeRecords (saveSettingsLogged st) = nodeRecords st"
  by (simp_all add: saveSettingsLogged_def saveSettings_def Let_def)

lemma resolveAutoNodeRecord_frame:
  assumes "resolveAutoNodeRecord file st = (r, st1)"
  shows "isUpdating st1 = isUpdating st" "contents st1 = contents st" "writes st1 = writes st"
    "markdownFiles st1 = markdownFiles st" "unwritable st1 = unwritable st"
  using assms
  by (auto simp: resolveAutoNodeRecord_def Let_def saveSettingsLogged_frame
      split: option.splits)

lemma resolveAutoNodeRecord_known:
  assumes "resolveAutoNodeRecord file st = (Some record, st1)"
  shows "nodeRecords st1 (TFile.path file) = Some record"
  using assms
  by (auto simp: resolveAutoNodeRecord_def Let_def saveSettingsLogged_frame
      split: option.splits)

lemma resolveAutoNodeRecord_again:
  assumes "nodeRecords st (TFile.path file) = Some record"
  shows "resolveAutoNodeRecord file st = (Some record, st)"
  using assms by (simp add: resolveAutoNodeRecord_def)

lemma vaultModify_frame:
  assumes "vaultModify file text st = (res, st2)"
  shows "isUpdating st2 = isUpdating st" "markdownFiles st2 = markdownFiles st"
    "nodeRecords st2 = nodeRecords st" "unwritable st2 = unwritable st"
  using assms by (auto simp: vaultModify_def split: if_splits)

lemma refreshBody_frame:
  assumes "refreshBody h file record st = (res, st2)"
  shows "isUpdating st2 = isUpdating st" "markdownFiles st2 = markdownFiles st"
    "nodeRecords st2 = nodeRecords st" "unwritable st2 = unwritable st"
  using assms
  by (auto simp: refreshBody_def Let_def vaultModify_def split: sum.splits option.splits if_splits)

lemma refreshAutoNode_isUpdating:
  "isUpdating (snd (refreshAutoNode h file st)) = isUpdating st"
proof (cases "TFile.path file \<in> isUpdating st")
  case True
  then show ?thesis by (simp add: refreshAutoNode_def)
next
  case False
  obtain r st1 where r: "resolveAutoNodeRecord file st = (r, st1)" by (cases "resolveAutoNodeRecord file st")
  note f1 = resolveAutoNodeRecord_frame[OF r]
  show ?thesis
  proof (cases r)
    case None
    with False r f1 show ?thesis by (simp add: refreshAutoNode_def)
  next
    case (Some rcd)
    obtain res st2 where b: "refreshBody h file rcd
        (st1\<lparr>isUpdating := insert (TFile.path file) (isUpdating st1)\<rparr>) = (res, st2)"
      by (cases "refreshBody h file rcd
        (st1\<lparr>isUpdating := insert (TFile.path file) (isUpdating st1)\<rparr>)")
    from refreshBody_frame(1)[OF b] have "isUpdating st2 = insert (TFile.path file) (isUpdating st1)"
      by simp
    with False r Some b f1 show ?thesis by (simp add: refreshAutoNode_def)
  qed
qed

lemma filterAutoNodes_isUpdating:
  "isUpdating (snd (filterAutoNodes files st)) = isUpdating st"
proof (induction files arbitrary: st)
  case Nil
  then show ?case by simp
next
  case (Cons f1 fs)
  obtain r st1 where r: "resolveAutoNodeRecord f1 st = (r, st1)" by (cases "resolveAutoNodeRecord f1 st")
  obtain rest st2 where f: "filterAutoNodes fs st1 = (rest, st2)" by (cases "filterAutoNodes fs st1")
  from Cons.IH[of st1] f have "isUpdating st2 = isUpdating st1" by simp
  with r f resolveAutoNodeRecord_frame(1)[OF r] show ?case by simp
qed

lemma refreshEach_isUpdating:
  "isUpdating (snd (refreshEach h files st)) = isUpdating st"
proof (induction files arbitrary: st)
  case Nil
  then show ?case by simp
next
  case (Cons f1 fs)
  obtain res st1 where r: "refreshAutoNode h f1 st = (res, st1)" by (cases "refreshAutoNode h f1 st")
  from refreshAutoNode_isUpdating[of h f1 st] r have u: "isUpdating st1 = isUpdating st" by simp
  show ?case
  proof (cases res)
    case (Inl e)
    with r u show ?thesis by simp
  next
    case (Inr x)
    with r u Cons.IH[of st1] show ?thesis by simp
  qed
qed

lemma refreshAllAutoNodes_isUpdating:
  "isUpdating (snd (refreshAllAutoNodes h st)) = isUpdating st"
proof -
  obtain autoNodes st1 where f: "filterAutoNodes (markdownFiles st) st = (autoNodes, st1)"
    by (cases "filterAutoNodes (markdownFiles st) st")
  from filterAutoNodes_isUpdating[of "markdownFiles st" st] f have "isUpdating st1 = isUpdating st"
    by simp
  with f refreshEach_isUpdating[of h autoNodes st1] show ?thesis
    by (simp add: refreshAllAutoNodes_def)
qed

text \<open>
  Claim C10 (the in-progress guard never leaks): a call of \<open>refreshAutoNode\<close> that passes
  the guard leaves the path of its file out of \<open>isUpdating\<close> when it ends, whether it
  returns or rejects; every call leaves the set as it found it, and a pass that starts
  with the empty set ends with the empty set.
\<close>

theorem refreshAutoNode_guard_never_leaks:
  "(TFile.path file \<notin> isUpdating st \<longrightarrow>
      TFile.path file \<notin> isUpdating (snd (refreshAutoNode h file st)))
   \<and> isUpdating (snd (refreshAutoNode h file st)) = isUpdating st
   \<and> (isUpdating st = {} \<longrightarrow> isUpdating (snd (refreshAllAutoNodes h st)) = {})"
  by (simp add: refreshAutoNode_isUpdating refreshAllAutoNodes_isUpdating)

lemma brokenVault_facts:
  "TFile.path (mdFile ''N1'') \<notin> isUpdating brokenVault"
  "resolveAutoNodeRecord (mdFile ''N1'') brokenVault = (Some (alphaRecord ''N1.md''), brokenVault)"
  "mdFile ''D'' \<in> set (markdownFiles brokenVault)"
  "TFile.path (mdFile ''D'') \<noteq> TFile.path (mdFile ''N1'')"
  "contents brokenVault (TFile.path (mdFile ''D'')) = None"
  "isUpdating brokenVault = {}"
  by (simp_all add: brokenVault_def vaultOf_def mdFile_def resolveAutoNodeRecord_def)

lemma brokenVault_refresh:
  "refreshAutoNode wikiLinkHost (mdFile ''N1'') brokenVault = (Inl (ReadFailed ''D.md''), brokenVault)"
proof -
  have "collectMatches wikiLinkHost
          (brokenVault\<lparr>isUpdating := insert (TFile.path (mdFile ''N1'')) (isUpdating brokenVault)\<rparr>)
          (mdFile ''N1'') (alphaRecord ''N1.md'') (markdownFiles brokenVault) []
        = Inl (ReadFailed ''D.md'')"
    by (simp add: brokenVault_def vaultOf_def mdFile_def)
  then have "refreshBody wikiLinkHost (mdFile ''N1'') (alphaRecord ''N1.md'')
          (brokenVault\<lparr>isUpdating := insert (TFile.path (mdFile ''N1'')) (isUpdating brokenVault)\<rparr>)
        = (Inl (ReadFailed ''D.md''),
           brokenVault\<lparr>isUpdating := insert (TFile.path (mdFile ''N1'')) (isUpdating brokenVault)\<rparr>)"
    by (simp add: refreshBody_def)
  then show ?thesis
    unfolding refreshAutoNode_def using brokenVault_facts(1,2,6) by simp
qed

text \<open>An instance of C10 in which the refresh rejects: the vault with the unreadable note.\<close>

theorem refreshAutoNode_guard_never_leaks_witness:
  "TFile.path (mdFile ''N1'') \<notin> isUpdating brokenVault
   \<and> fst (refreshAutoNode wikiLinkHost (mdFile ''N1'') brokenVault) = Inl (ReadFailed ''D.md'')
   \<and> TFile.path (mdFile ''N1'') \<notin> isUpdating (snd (refreshAutoNode wikiLinkHost (mdFile ''N1'') brokenVault))
   \<and> isUpdating brokenVault = {}
   \<and> isUpdating (snd (refreshAllAutoNodes wikiLinkHost brokenVault)) = {}"
  using refreshAutoNode_guard_never_leaks[of "mdFile ''N1''" brokenVault wikiLinkHost]
    brokenVault_facts(1,6)
  by (simp add: brokenVault_refresh)

subsection \<open>C3: a note that cannot be read\<close>









subsection \<open>C5: writing only what changed\<close>

lemma collectMatches_cong:
  assumes "\<And>p. p \<noteq> TFile.path file \<Longrightarrow> contents st p = contents st' p"
  shows "collectMatches h st file rcd files matches = collectMatches h st' file rcd files matches"
proof (induction files arbitrary: matches)
  case Nil
  then show ?case by simp
next
  case (Cons f1 fs)
  show ?case
  proof (cases "TFile.path f1 = TFile.path file")
    case True
    with Cons.IH show ?thesis by simp
  next
    case False
    then have "contents st (TFile.path f1) = contents st' (TFile.path f1)" by (rule assms)
    with False Cons.IH show ?thesis by (simp split: option.splits)
  qed
qed

lemma refreshAutoNode_run:
  assumes guard: "TFile.path file \<notin> isUpdating st"
    and res: "resolveAutoNodeRecord file st = (Some rcd, st1)"
    and scan: "collectMatches h st file rcd (markdownFiles st) [] = Inr matches"
    and cur: "contents st (TFile.path file) = Some current"
    and wr: "TFile.path file \<notin> unwritable st"
  shows "refreshAutoNode h file st =
     (Inr (),
      if current \<noteq> mergeGeneratedSection current (generatedSection h matches) (keyword rcd)
      then st1\<lparr>contents := (contents st1)(TFile.path file \<mapsto>
                    mergeGeneratedSection current (generatedSection h matches) (keyword rcd)),
               writes := writes st1 @ [(TFile.path file,
                    mergeGeneratedSection current (generatedSection h matches) (keyword rcd))]\<rparr>
      else st1)"
proof -
  note f = resolveAutoNodeRecord_frame[OF res]
  let ?st2 = "st1\<lparr>isUpdating := insert (TFile.path file) (isUpdating st1)\<rparr>"
  have "collectMatches h ?st2 file rcd (markdownFiles st) [] = collectMatches h st file rcd (markdownFiles st) []"
    by (rule collectMatches_cong) (simp add: f)
  with scan have scan2: "collectMatches h ?st2 file rcd (markdownFiles ?st2) [] = Inr matches"
    by (simp add: f)
  have cur2: "contents ?st2 (TFile.path file) = Some current" using cur by (simp add: f)
  have wr2: "TFile.path file \<notin> unwritable ?st2" using wr by (simp add: f)
  have iu: "insert (TFile.path file) (isUpdating st1) - {TFile.path file} = isUpdating st1"
    using guard by (auto simp: f)
  have body: "refreshBody h file rcd ?st2 =
     (Inr (),
      if current \<noteq> mergeGeneratedSection current (generatedSection h matches) (keyword rcd)
      then ?st2\<lparr>contents := (contents ?st2)(TFile.path file \<mapsto>
                    mergeGeneratedSection current (generatedSection h matches) (keyword rcd)),
               writes := writes ?st2 @ [(TFile.path file,
                    mergeGeneratedSection current (generatedSection h matches) (keyword rcd))]\<rparr>
      else ?st2)"
    unfolding refreshBody_def scan2 cur2 using wr2 by (simp add: Let_def vaultModify_def)
  show ?thesis
    unfolding refreshAutoNode_def using guard res body iu by (simp add: f)
qed

lemma refreshAutoNode_rerun:
  assumes guard: "TFile.path file \<notin> isUpdating st"
    and res: "resolveAutoNodeRecord file st = (Some rcd, st1)"
    and scan: "collectMatches h st file rcd (markdownFiles st) [] = Inr matches"
    and cur: "contents st (TFile.path file) = Some current"
    and wr: "TFile.path file \<notin> unwritable st"
    and nxt: "next = mergeGeneratedSection current (generatedSection h matches) (keyword rcd)"
  shows "writes (snd (refreshAutoNode h file (snd (refreshAutoNode h file st)))) =
         writes (snd (refreshAutoNode h file st))
         @ (if mergeGeneratedSection next (generatedSection h matches) (keyword rcd) \<noteq> next
            then [(TFile.path file,
                   mergeGeneratedSection next (generatedSection h matches) (keyword rcd))]
            else [])"
proof -
  note f = resolveAutoNodeRecord_frame[OF res]
  note run1 = refreshAutoNode_run[OF guard res scan cur wr, folded nxt]
  define st' where "st' = snd (refreshAutoNode h file st)"
  have st'_eq: "st' = (if current \<noteq> next
      then st1\<lparr>contents := (contents st1)(TFile.path file \<mapsto> next),
               writes := writes st1 @ [(TFile.path file, next)]\<rparr> else st1)"
    unfolding st'_def run1 by simp
  have c': "contents st' (TFile.path file) = Some next"
    using cur by (simp add: st'_eq f)
  have g': "TFile.path file \<notin> isUpdating st'" using guard by (simp add: st'_eq f)
  have w': "TFile.path file \<notin> unwritable st'" using wr by (simp add: st'_eq f)
  have "nodeRecords st' (TFile.path file) = Some rcd"
    using resolveAutoNodeRecord_known[OF res] by (simp add: st'_eq)
  then have r': "resolveAutoNodeRecord file st' = (Some rcd, st')"
    by (rule resolveAutoNodeRecord_again)
  have m': "markdownFiles st' = markdownFiles st" by (simp add: st'_eq f)
  have "collectMatches h st' file rcd (markdownFiles st) [] = collectMatches h st file rcd (markdownFiles st) []"
    by (rule collectMatches_cong) (simp add: st'_eq f)
  with scan have s': "collectMatches h st' file rcd (markdownFiles st') [] = Inr matches"
    by (simp add: m')
  from refreshAutoNode_run[OF g' r' s' c' w']
  show ?thesis unfolding st'_def[symmetric] by auto
qed

text \<open>
  Claim C5 (write only when changed): when the guard is passed, the record is resolved,
  every read succeeds and the target can be written, \<open>refreshAutoNode\<close> calls
  \<open>vault.modify\<close> if and only if the merged text differs from the current text. A second
  run right after the first writes again if and only if the merge changes the text that
  the first run produced. It writes nothing when that text is unchanged by
  \<open>normalizeMarkers\<close>, holds the heading \<open># Auto Node\<close>, and the generated section does
  not contain the end marker. The claim as stated has the second run never write.
\<close>

theorem refreshAutoNode_writes_only_when_changed:
  assumes "TFile.path file \<notin> isUpdating st"
    and "resolveAutoNodeRecord file st = (Some rcd, st1)"
    and "collectMatches h st file rcd (markdownFiles st) [] = Inr matches"
    and "contents st (TFile.path file) = Some current"
    and "TFile.path file \<notin> unwritable st"
    and "next = mergeGeneratedSection current (generatedSection h matches) (keyword rcd)"
  shows "writes (snd (refreshAutoNode h file st)) =
           writes st @ (if next \<noteq> current then [(TFile.path file, next)] else [])
       \<and> writes (snd (refreshAutoNode h file (snd (refreshAutoNode h file st)))) =
           writes (snd (refreshAutoNode h file st))
           @ (if mergeGeneratedSection next (generatedSection h matches) (keyword rcd) \<noteq> next
              then [(TFile.path file,
                     mergeGeneratedSection next (generatedSection h matches) (keyword rcd))]
              else [])
       \<and> (normalizeMarkers next = next \<and> includesStr next ''# Auto Node''
            \<and> \<not> includesStr (generatedSection h matches) AUTO_NODE_MARKER_END
          \<longrightarrow> writes (snd (refreshAutoNode h file (snd (refreshAutoNode h file st)))) =
              writes (snd (refreshAutoNode h file st)))"
proof -
  note f = resolveAutoNodeRecord_frame[OF assms(2)]
  have one: "writes (snd (refreshAutoNode h file st)) =
           writes st @ (if next \<noteq> current then [(TFile.path file, next)] else [])"
    unfolding refreshAutoNode_run[OF assms(1-5)] assms(6) by (auto simp: f)
  note two = refreshAutoNode_rerun[OF assms]
  have three: "mergeGeneratedSection next (generatedSection h matches) (keyword rcd) = next"
    if "normalizeMarkers next = next" "includesStr next ''# Auto Node''"
      "\<not> includesStr (generatedSection h matches) AUTO_NODE_MARKER_END"
    using that merge_fixed[of current "generatedSection h matches" "keyword rcd"]
    unfolding assms(6) by simp
  from one two three show ?thesis by simp
qed

lemma exampleVault_contains:
  "containsKeyword (mdFile ''A'') ''alpha info'' (alphaRecord ''N.md'')"
  "\<not> containsKeyword (mdFile ''B'') ''nothing here'' (alphaRecord ''N.md'')"
  by (simp_all add: containsKeyword_def alphaRecord_def mdFile_def toLowerCase_def lowerChar_def
      includesStr_def char_of_eq_iff)

lemma exampleVault_facts:
  "TFile.path (mdFile ''N'') \<notin> isUpdating exampleVault"
  "resolveAutoNodeRecord (mdFile ''N'') exampleVault = (Some (alphaRecord ''N.md''), exampleVault)"
  "contents exampleVault (TFile.path (mdFile ''N'')) =
     Some ''# Auto Node\<newline><!-- auto-node:start -->\<newline>_Collecting links..._\<newline><!-- auto-node:end -->\<newline>''"
  "TFile.path (mdFile ''N'') \<notin> unwritable exampleVault"
  "writes exampleVault = []"
  by (simp_all add: exampleVault_def vaultOf_def mdFile_def resolveAutoNodeRecord_def)

lemma exampleVault_scan:
  "collectMatches wikiLinkHost exampleVault (mdFile ''N'') (alphaRecord ''N.md'')
     (markdownFiles exampleVault) [] = Inr [''[[A]]'']"
proof -
  have "markdownFiles exampleVault = [mdFile ''A'', mdFile ''B'', mdFile ''N'']"
    "contents exampleVault (TFile.path (mdFile ''A'')) = Some ''alpha info''"
    "contents exampleVault (TFile.path (mdFile ''B'')) = Some ''nothing here''"
    "TFile.path (mdFile ''A'') \<noteq> TFile.path (mdFile ''N'')"
    "TFile.path (mdFile ''B'') \<noteq> TFile.path (mdFile ''N'')"
    "generateMarkdownLink wikiLinkHost (mdFile ''A'') (TFile.path (mdFile ''N'')) = ''[[A]]''"
    by (simp_all add: exampleVault_def vaultOf_def mdFile_def wikiLinkHost_def)
  then show ?thesis by (simp add: exampleVault_contains)
qed

lemma exampleVault_section: "generatedSection wikiLinkHost [''[[A]]''] = ''- [[A]]''"
  by (simp add: generatedSection_def sortWith_def)

lemma keyword_alphaRecord: "keyword (alphaRecord p) = ''alpha''"
  by (simp add: alphaRecord_def)

text \<open>
  The end-to-end example of the specification: the first run writes the auto-node with one
  link, to \<open>A.md\<close>; the second run writes nothing.
\<close>

theorem refreshAutoNode_writes_only_when_changed_witness:
  "TFile.path (mdFile ''N'') \<notin> isUpdating exampleVault
   \<and> resolveAutoNodeRecord (mdFile ''N'') exampleVault = (Some (alphaRecord ''N.md''), exampleVault)
   \<and> collectMatches wikiLinkHost exampleVault (mdFile ''N'') (alphaRecord ''N.md'')
        (markdownFiles exampleVault) [] = Inr [''[[A]]'']
   \<and> TFile.path (mdFile ''N'') \<notin> unwritable exampleVault
   \<and> writes (snd (refreshAutoNode wikiLinkHost (mdFile ''N'') exampleVault))
       = [(''N.md'', ''# Auto Node\<newline>'' @ AUTO_NODE_MARKER_START @ [NL, NL] @ ''- [[A]]'' @ [NL, NL]
                     @ AUTO_NODE_MARKER_END @ [NL])]
   \<and> writes (snd (refreshAutoNode wikiLinkHost (mdFile ''N'')
                (snd (refreshAutoNode wikiLinkHost (mdFile ''N'') exampleVault))))
       = [(''N.md'', ''# Auto Node\<newline>'' @ AUTO_NODE_MARKER_START @ [NL, NL] @ ''- [[A]]'' @ [NL, NL]
                     @ AUTO_NODE_MARKER_END @ [NL])]"
proof -
  define T where "T = ''# Auto Node\<newline><!-- auto-node:start -->\<newline>_Collecting links..._\<newline><!-- auto-node:end -->\<newline>''"
  define R where "R = ''# Auto Node\<newline>'' @ AUTO_NODE_MARKER_START @ [NL, NL] @ ''- [[A]]'' @ [NL, NL]
                     @ AUTO_NODE_MARKER_END @ [NL]"
  have nxt: "R = mergeGeneratedSection T (generatedSection wikiLinkHost [''[[A]]''])
                    (keyword (alphaRecord ''N.md''))"
    unfolding exampleVault_section keyword_alphaRecord R_def T_def by (rule doc1_merge[symmetric])
  have ne: "R \<noteq> T"
    by (simp add: R_def T_def AUTO_NODE_MARKER_START_def AUTO_NODE_MARKER_END_def NL_def)
  have h1: "normalizeMarkers R = R" unfolding R_def by (rule doc1_result_normal)
  have h2: "includesStr R ''# Auto Node''" unfolding R_def by (rule heading_first)
  have h3: "\<not> includesStr (generatedSection wikiLinkHost [''[[A]]'']) AUTO_NODE_MARKER_END"
    unfolding exampleVault_section
    by (rule not_includesStr_free) (simp_all add: END_facts marker_hd)
  have cur: "contents exampleVault (TFile.path (mdFile ''N'')) = Some T"
    unfolding T_def by (rule exampleVault_facts(3))
  note main = refreshAutoNode_writes_only_when_changed
    [OF exampleVault_facts(1,2) exampleVault_scan cur exampleVault_facts(4) nxt]
  from main ne exampleVault_facts(5)
  have w1: "writes (snd (refreshAutoNode wikiLinkHost (mdFile ''N'') exampleVault))
          = [(TFile.path (mdFile ''N''), R)]"
    by simp
  from main h1 h2 h3
  have "writes (snd (refreshAutoNode wikiLinkHost (mdFile ''N'')
                (snd (refreshAutoNode wikiLinkHost (mdFile ''N'') exampleVault))))
          = writes (snd (refreshAutoNode wikiLinkHost (mdFile ''N'') exampleVault))"
    by blast
  with w1 have w2: "writes (snd (refreshAutoNode wikiLinkHost (mdFile ''N'')
                (snd (refreshAutoNode wikiLinkHost (mdFile ''N'') exampleVault))))
          = [(TFile.path (mdFile ''N''), R)]"
    by simp
  have p: "TFile.path (mdFile ''N'') = ''N.md''" by (simp add: mdFile_def)
  show ?thesis
    using exampleVault_facts(1,2,4) exampleVault_scan w1 w2 unfolding p R_def by blast
qed

lemma headingInsideVault_facts:
  "TFile.path (mdFile ''N'') \<notin> isUpdating headingInsideVault"
  "resolveAutoNodeRecord (mdFile ''N'') headingInsideVault
     = (Some (alphaRecord ''N.md''), headingInsideVault)"
  "collectMatches wikiLinkHost headingInsideVault (mdFile ''N'') (alphaRecord ''N.md'')
     (markdownFiles headingInsideVault) [] = Inr []"
  "contents headingInsideVault (TFile.path (mdFile ''N'')) =
     Some ''<!-- auto-node:start -->\<newline># Auto Node\<newline><!-- auto-node:end -->''"
  "TFile.path (mdFile ''N'') \<notin> unwritable headingInsideVault"
  "writes headingInsideVault = []"
  by (simp_all add: headingInsideVault_def vaultOf_def mdFile_def resolveAutoNodeRecord_def)

lemma placeholder_section: "generatedSection h [] = ''_No matching notes yet._''"
  by (simp add: generatedSection_def sortWith_def)

text \<open>
  C5 as stated fails on the vault whose auto-node has its only heading between the
  markers: both runs write, with no document changed in between.
\<close>

theorem rerun_writes_again_counterexample:
  "writes (snd (refreshAutoNode wikiLinkHost (mdFile ''N'') headingInsideVault))
     = [(''N.md'', AUTO_NODE_MARKER_START @ [NL, NL] @ ''_No matching notes yet._'' @ [NL, NL]
                   @ AUTO_NODE_MARKER_END @ [NL])]
   \<and> writes (snd (refreshAutoNode wikiLinkHost (mdFile ''N'')
              (snd (refreshAutoNode wikiLinkHost (mdFile ''N'') headingInsideVault))))
     = [(''N.md'', AUTO_NODE_MARKER_START @ [NL, NL] @ ''_No matching notes yet._'' @ [NL, NL]
                   @ AUTO_NODE_MARKER_END @ [NL]),
        (''N.md'', (AUTO_NODE_INTRO @ [NL]) @ AUTO_NODE_MARKER_START @ [NL, NL]
                   @ ''_No matching notes yet._'' @ [NL, NL] @ AUTO_NODE_MARKER_END @ [NL])]"
proof -
  define T where "T = ''<!-- auto-node:start -->\<newline># Auto Node\<newline><!-- auto-node:end -->''"
  define R where "R = AUTO_NODE_MARKER_START @ [NL, NL] @ ''_No matching notes yet._'' @ [NL, NL]
                   @ AUTO_NODE_MARKER_END @ [NL]"
  define R2 where "R2 = (AUTO_NODE_INTRO @ [NL]) @ AUTO_NODE_MARKER_START @ [NL, NL]
                   @ ''_No matching notes yet._'' @ [NL, NL] @ AUTO_NODE_MARKER_END @ [NL]"
  have m1: "mergeGeneratedSection T (generatedSection wikiLinkHost []) (keyword (alphaRecord ''N.md'')) = R"
    unfolding placeholder_section keyword_alphaRecord T_def R_def by (rule doc0_merge)
  have m2: "mergeGeneratedSection R (generatedSection wikiLinkHost []) (keyword (alphaRecord ''N.md'')) = R2"
    unfolding placeholder_section keyword_alphaRecord R_def R2_def by (rule doc0_second)
  have ne1: "T \<noteq> R"
    by (simp add: T_def R_def AUTO_NODE_MARKER_START_def AUTO_NODE_MARKER_END_def NL_def)
  have "R2 = (AUTO_NODE_INTRO @ [NL]) @ R" by (simp add: R_def R2_def)
  then have ne2: "R2 \<noteq> R" by (simp only: append_self_conv2) simp
  have cur: "contents headingInsideVault (TFile.path (mdFile ''N'')) = Some T"
    unfolding T_def by (rule headingInsideVault_facts(4))
  note run = refreshAutoNode_run[OF headingInsideVault_facts(1,2,3) cur headingInsideVault_facts(5)]
  note rerun = refreshAutoNode_rerun[OF headingInsideVault_facts(1,2,3) cur
      headingInsideVault_facts(5) m1[symmetric]]
  have p: "TFile.path (mdFile ''N'') = ''N.md''" by (simp add: mdFile_def)
  have w1: "writes (snd (refreshAutoNode wikiLinkHost (mdFile ''N'') headingInsideVault)) = [(''N.md'', R)]"
    unfolding run m1 using ne1 headingInsideVault_facts(6) by (simp add: p)
  have w2: "writes (snd (refreshAutoNode wikiLinkHost (mdFile ''N'')
              (snd (refreshAutoNode wikiLinkHost (mdFile ''N'') headingInsideVault))))
            = [(''N.md'', R), (''N.md'', R2)]"
    unfolding rerun m2 w1 using ne2 by (simp add: p)
  show ?thesis using w1 w2 unfolding R_def R2_def by blast
qed

subsection \<open>C8: renaming onto an existing file\<close>



subsection \<open>C7: one pass for a burst\<close>

lemma scheduleRefresh_arms:
  assumes "(timers s = [] \<and> refreshTimeout s = None)
         \<or> (\<exists>hnd due. timers s = [(hnd, due)] \<and> refreshTimeout s = Some hnd)"
  shows "timers (scheduleRefresh d s) = [(nextHandle s, now s + d)]"
    and "refreshTimeout (scheduleRefresh d s) = Some (nextHandle s)"
    and "passes (scheduleRefresh d s) = passes s"
    and "now (scheduleRefresh d s) = now s"
  using assms by (auto simp: scheduleRefresh_def clearTimeout_def setTimeout_def)

lemma elapse_early:
  assumes "timers s = [(hnd, due)]" and "now s + g < due"
  shows "elapse g s = s\<lparr>now := now s + g\<rparr>"
  using assms by (simp add: elapse_def Let_def)

lemma elapse_fire:
  assumes "timers s = [(hnd, due)]" and "due \<le> now s + t"
  shows "elapse t s = s\<lparr>now := now s + t, timers := [], refreshTimeout := None,
                        passes := Suc (passes s)\<rparr>"
  using assms by (simp add: elapse_def Let_def timerCallback_def)

lemma burst_armed:
  assumes "withinDelay d rest"
    and "(timers s = [] \<and> refreshTimeout s = None)
       \<or> (\<exists>hnd due. timers s = [(hnd, due)] \<and> refreshTimeout s = Some hnd)"
  shows "\<exists>hnd. timers (burst d rest s) = [(hnd, now (burst d rest s) + lastDelay d rest)]
            \<and> refreshTimeout (burst d rest s) = Some hnd
            \<and> passes (burst d rest s) = passes s"
  using assms
proof (induction rest arbitrary: d s)
  case Nil
  then show ?case by (simp add: scheduleRefresh_arms)
next
  case (Cons x rest)
  obtain g d1 where x: "x = (g, d1)" by (cases x)
  from Cons.prems(1) x have g: "g < d" and w: "withinDelay d1 rest" by simp_all
  let ?s1 = "scheduleRefresh d s"
  note a = scheduleRefresh_arms[OF Cons.prems(2), of d]
  have e: "elapse g ?s1 = ?s1\<lparr>now := now ?s1 + g\<rparr>"
    by (rule elapse_early[OF a(1)]) (use g a(4) in arith)
  have inv: "(timers (elapse g ?s1) = [] \<and> refreshTimeout (elapse g ?s1) = None)
       \<or> (\<exists>hnd due. timers (elapse g ?s1) = [(hnd, due)] \<and> refreshTimeout (elapse g ?s1) = Some hnd)"
    unfolding e using a(1,2) by simp
  have p: "passes (elapse g ?s1) = passes s" unfolding e using a(3) by simp
  from Cons.IH[OF w inv] p x show ?case by simp
qed

text \<open>
  Claim C7 (debounce): let no timer be armed, and let one or more change signals arrive,
  each less than the delay of the signal before after that signal. Then a pass starts
  exactly once, when the delay of the last signal has passed after it, and not before;
  after that no timer is armed. A signal that arrives while a timer is pending clears
  that timer and arms a new one, due a full delay later, without starting a pass.
\<close>

theorem scheduleRefresh_debounce:
  assumes "timers s = []" and "refreshTimeout s = None"
    and "withinDelay delay rest" and "lastDelay delay rest \<le> t"
  shows "passes (elapse t (burst delay rest s)) = Suc (passes s)
       \<and> refreshTimeout (elapse t (burst delay rest s)) = None
       \<and> timers (elapse t (burst delay rest s)) = []
       \<and> (\<forall>t'. t' < lastDelay delay rest \<longrightarrow>
             passes (elapse t' (burst delay rest s)) = passes s)
       \<and> (\<forall>pending delay1 hnd due.
             timers pending = [(hnd, due)] \<and> refreshTimeout pending = Some hnd \<longrightarrow>
               timers (scheduleRefresh delay1 pending)
                 = [(nextHandle pending, now pending + delay1)]
             \<and> refreshTimeout (scheduleRefresh delay1 pending) = Some (nextHandle pending)
             \<and> passes (scheduleRefresh delay1 pending) = passes pending)"
proof -
  from assms(1,2) have "(timers s = [] \<and> refreshTimeout s = None)
       \<or> (\<exists>hnd due. timers s = [(hnd, due)] \<and> refreshTimeout s = Some hnd)" by simp
  from burst_armed[OF assms(3) this] obtain hnd
    where b: "timers (burst delay rest s) = [(hnd, now (burst delay rest s) + lastDelay delay rest)]"
      "refreshTimeout (burst delay rest s) = Some hnd"
      "passes (burst delay rest s) = passes s"
    by blast
  have fire: "elapse t (burst delay rest s) =
      (burst delay rest s)\<lparr>now := now (burst delay rest s) + t, timers := [],
         refreshTimeout := None, passes := Suc (passes (burst delay rest s))\<rparr>"
    by (rule elapse_fire[OF b(1)]) (use assms(4) in arith)
  have early: "passes (elapse t' (burst delay rest s)) = passes s" if "t' < lastDelay delay rest" for t'
  proof -
    have "elapse t' (burst delay rest s) = (burst delay rest s)\<lparr>now := now (burst delay rest s) + t'\<rparr>"
      by (rule elapse_early[OF b(1)]) (use that in arith)
    then show ?thesis using b(3) by simp
  qed
  have rearm: "timers (scheduleRefresh delay1 pending) = [(nextHandle pending, now pending + delay1)]
             \<and> refreshTimeout (scheduleRefresh delay1 pending) = Some (nextHandle pending)
             \<and> passes (scheduleRefresh delay1 pending) = passes pending"
    if "timers pending = [(hnd', due)] \<and> refreshTimeout pending = Some hnd'"
    for pending delay1 hnd' due
    using that scheduleRefresh_arms[of pending delay1] by blast
  from fire b(3) early rearm show ?thesis by simp
qed

text \<open>Three signals at times 0, 100 and 599 with the delay 500.\<close>

theorem scheduleRefresh_debounce_witness:
  "timers \<lparr>now = 0, nextHandle = 0, timers = [], refreshTimeout = None, passes = 0\<rparr> = []
   \<and> refreshTimeout \<lparr>now = 0, nextHandle = 0, timers = [], refreshTimeout = None, passes = 0\<rparr> = None
   \<and> withinDelay 500 [(100, 500), (499, 500)]
   \<and> lastDelay 500 [(100, 500), (499, 500)] \<le> 500
   \<and> passes (elapse 500 (burst 500 [(100, 500), (499, 500)]
        \<lparr>now = 0, nextHandle = 0, timers = [], refreshTimeout = None, passes = 0\<rparr>)) = 1
   \<and> passes (elapse 499 (burst 500 [(100, 500), (499, 500)]
        \<lparr>now = 0, nextHandle = 0, timers = [], refreshTimeout = None, passes = 0\<rparr>)) = 0"
proof -
  let ?s = "\<lparr>now = 0, nextHandle = 0, timers = [], refreshTimeout = None, passes = 0\<rparr>"
  have h: "timers ?s = []" "refreshTimeout ?s = None" "withinDelay 500 [(100, 500), (499, 500)]"
    "lastDelay 500 [(100, 500), (499, 500)] \<le> 500"
    by simp_all
  from scheduleRefresh_debounce[OF h]
  have "passes (elapse 500 (burst 500 [(100, 500), (499, 500)] ?s)) = Suc (passes ?s)"
    and "\<forall>t'. t' < lastDelay 500 [(100, 500), (499, 500)] \<longrightarrow>
             passes (elapse t' (burst 500 [(100, 500), (499, 500)] ?s)) = passes ?s"
    by blast+
  then show ?thesis using h by simp
qed

end
